theory Spec2Isabelle
  imports Complex_Main
begin

section \<open>The training script \<^verbatim>\<open>scripts/train_tiny_mnist.py\<close>\<close>

text \<open>
  The function \<^verbatim>\<open>main(args)\<close> drives external collaborators (the diffusion model, the Adam
  optimizer, data loaders, the wandb session, \<^verbatim>\<open>torch.save\<close>, \<^verbatim>\<open>print\<close>). The embedding follows
  the statements of \<^verbatim>\<open>main\<close> one by one:
  \<^item> every call to a collaborator is an event appended to a trace, stamped with the loop
    iteration whose body makes the call (\<open>None\<close> outside the loop); \<^verbatim>\<open>torch.save\<close>, which is
    not atomic, counts as two calls: the creation of the file, then the write into it;
  \<^item> the values the collaborators compute (parameters, optimizer state, losses) come from
    an environment record of functions, so that every theorem holds for all of them;
  \<^item> Python exceptions are values: a computation returns \<open>Inl e\<close> when it raises \<open>e\<close>;
  \<^item> an exception coming from outside (a \<^verbatim>\<open>KeyboardInterrupt\<close>, a failing collaborator) is a
    fault \<open>(k, e)\<close>: the call number \<open>k\<close> made inside the \<^verbatim>\<open>try\<close> block (counted from 0)
    raises \<open>e\<close> instead of completing. At most one fault is delivered, and only inside
    the \<^verbatim>\<open>try\<close> block; \<^verbatim>\<open>mkdir\<close>, the \<^verbatim>\<open>except\<close> handler and the \<^verbatim>\<open>finally\<close> block run undisturbed.
  Loss values are of an arbitrary type with the environment's addition and division, so
  nothing depends on how floating-point numbers round.
\<close>

subsection \<open>Exceptions, arguments, events\<close>

datatype exn = KeyboardInterrupt | ValueError | ZeroDivisionError | UnboundLocalError | OtherError

text \<open>The fields of \<^verbatim>\<open>args\<close> that \<^verbatim>\<open>main\<close> reads itself (the others only parametrise the
  model's construction).\<close>

record args =
  log_dir :: string
  model_checkpoint :: "string option"
  optim_checkpoint :: "string option"
  log_to_wandb :: bool
  project_name :: "string option"
  run_name :: string
  batch_size :: int
  iterations :: int
  use_labels :: bool
  log_rate :: int
  checkpoint_rate :: int

datatype snapshot = ModelState | OptimState

datatype 'v message = IterLoss int 'v | TestLoss 'v | InterruptNotice

datatype ('s, 'v) event =
    Mkdir string
  | GetDiffusion
  | NewAdam
  | LoadModel string
  | LoadOptim string
  | WandbInit string string
  | WandbWatch
  | NewDataset bool
  | NewDataLoader bool
  | SetTrain
  | NextBatch
  | Forward bool "'s list"
  | Print "'v message"
  | ZeroGrad
  | Backward
  | OptStep
  | UpdateEma
  | SetEval
  | Sample bool
  | WandbLog 'v 'v
  | CreateFile string
  | TorchSave snapshot string
  | WandbFinish

text \<open>\<open>Forward g b\<close> is a forward pass on batch \<open>b\<close>, with gradient tracking enabled (\<open>g\<close>) or
  inside \<^verbatim>\<open>torch.no_grad()\<close>. \<open>NewDataset t\<close> and \<open>NewDataLoader t\<close> build the training (\<open>t\<close>) or the
  held-out set and loader. \<open>WandbLog test train\<close> carries the two scalars of the record (the
  sample images are left out).\<close>

subsection \<open>The frame of \<^verbatim>\<open>main\<close> that outlives an exception\<close>

datatype run = Run

record ('s, 'v) world =
  clock :: nat
  trace :: "(int option \<times> ('s, 'v) event) list"
  wandb_runner :: "run option"

text \<open>\<open>wandb_runner = None\<close> is the unbound local variable.\<close>

type_synonym fault = "(nat \<times> exn) option"

type_synonym ('a, 's, 'v) comp = "('s, 'v) world \<Rightarrow> (exn + 'a) \<times> ('s, 'v) world"

definition fault_at :: "fault \<Rightarrow> nat \<Rightarrow> exn option" where
  "fault_at flt k = (case flt of None \<Rightarrow> None | Some (k', e) \<Rightarrow> if k' = k then Some e else None)"

definition returns :: "'a \<Rightarrow> ('a, 's, 'v) comp" where
  "returns x w = (Inr x, w)"

definition raises :: "exn \<Rightarrow> ('a, 's, 'v) comp" where
  "raises e w = (Inl e, w)"

definition then_do :: "('a, 's, 'v) comp \<Rightarrow> ('a \<Rightarrow> ('b, 's, 'v) comp) \<Rightarrow> ('b, 's, 'v) comp" where
  "then_do m k w = (case m w of (Inl e, w') \<Rightarrow> (Inl e, w') | (Inr x, w') \<Rightarrow> k x w')"

definition of_result :: "exn + 'a \<Rightarrow> ('a, 's, 'v) comp" where
  "of_result r = (case r of Inl e \<Rightarrow> raises e | Inr x \<Rightarrow> returns x)"

text \<open>A call inside the \<^verbatim>\<open>try\<close> block: it completes and is recorded, unless the fault strikes it.\<close>

definition call :: "fault \<Rightarrow> int option \<Rightarrow> ('s, 'v) event \<Rightarrow> (unit, 's, 'v) comp" where
  "call flt it ev w =
     (case fault_at flt (clock w) of
        Some e \<Rightarrow> (Inl e, w\<lparr>clock := Suc (clock w)\<rparr>)
      | None \<Rightarrow> (Inr (), w\<lparr>clock := Suc (clock w), trace := trace w @ [(it, ev)]\<rparr>))"

text \<open>A call outside the \<^verbatim>\<open>try\<close> block.\<close>

definition emit :: "('s, 'v) event \<Rightarrow> ('s, 'v) world \<Rightarrow> ('s, 'v) world" where
  "emit ev w = w\<lparr>trace := trace w @ [(None, ev)]\<rparr>"

definition calls :: "('s, 'v) world \<Rightarrow> ('s, 'v) event list" where
  "calls w = map snd (trace w)"

subsection \<open>Python arithmetic and strings\<close>

definition py_mod :: "int \<Rightarrow> int \<Rightarrow> exn + int" where
  "py_mod a b = (if b = 0 then Inl ZeroDivisionError else Inr (a mod b))"

definition digit_char :: "nat \<Rightarrow> char" where
  "digit_char d = ''0123456789'' ! d"

function str_nat :: "nat \<Rightarrow> string" where
  "str_nat n = (if n < 10 then [digit_char n] else str_nat (n div 10) @ [digit_char (n mod 10)])"
  by pat_completeness auto
termination
  by (relation "measure id") auto

declare str_nat.simps [simp del]

definition str_int :: "int \<Rightarrow> string" where
  "str_int i = (if i < 0 then CHR ''-'' # str_nat (nat (- i)) else str_nat (nat i))"

text \<open>An f-string prints \<^verbatim>\<open>None\<close> as the word.\<close>

definition str_opt :: "string option \<Rightarrow> string" where
  "str_opt x = (case x of None \<Rightarrow> ''None'' | Some s \<Rightarrow> s)"

definition model_filename :: "args \<Rightarrow> int \<Rightarrow> string" where
  "model_filename a iteration =
     log_dir a @ ''/'' @ str_opt (project_name a) @ ''-'' @ run_name a
       @ ''-iteration-'' @ str_int iteration @ ''-model.pth''"

definition optim_filename :: "args \<Rightarrow> int \<Rightarrow> string" where
  "optim_filename a iteration =
     log_dir a @ ''/'' @ str_opt (project_name a) @ ''-'' @ run_name a
       @ ''-iteration-'' @ str_int iteration @ ''-optim.pth''"

subsection \<open>\<^verbatim>\<open>DataLoader(dataset, batch_size, drop_last=True)\<close>\<close>

text \<open>The library's loader: the constructor refuses a batch size that is not positive,
  \<^verbatim>\<open>len\<close> is the floor of the quotient, and iteration yields the consecutive full batches.\<close>

record 's data_loader =
  dataset :: "'s list"
  loader_batch_size :: int

definition new_data_loader :: "'s list \<Rightarrow> int \<Rightarrow> exn + 's data_loader" where
  "new_data_loader xs bs =
     (if bs \<le> 0 then Inl ValueError else Inr \<lparr>dataset = xs, loader_batch_size = bs\<rparr>)"

definition loader_len :: "'s data_loader \<Rightarrow> int" where
  "loader_len l = int (length (dataset l)) div loader_batch_size l"

function full_batches :: "nat \<Rightarrow> 's list \<Rightarrow> 's list list" where
  "full_batches n xs =
     (if n = 0 \<or> length xs < n then [] else take n xs # full_batches n (drop n xs))"
  by pat_completeness auto
termination
  by (relation "measure (\<lambda>(n, xs). length xs)") auto

declare full_batches.simps [simp del]

definition loader_batches :: "'s data_loader \<Rightarrow> 's list list" where
  "loader_batches l = full_batches (nat (loader_batch_size l)) (dataset l)"

subsection \<open>The collaborators\<close>

text \<open>The diffusion module: its parameters (the EMA copy and the gradients with them) and
  the training flag that \<^verbatim>\<open>train()\<close> and \<^verbatim>\<open>eval()\<close> set.\<close>

record 'p module =
  params :: 'p
  training :: bool

text \<open>Modelled from the spec: the packages \<^verbatim>\<open>ddpm\<close> and \<^verbatim>\<open>datasets\<close> of the repository, which
  \<^verbatim>\<open>main\<close> only calls. The forward contract gives a scalar loss from the module and a batch
  (with or without labels); the cyclic training loader is an unbounded sequence of batches.\<close>

record ('p, 'o, 's, 'v) env =
  init_params :: 'p
  adam :: "'p \<Rightarrow> 'o"
  load_model :: "string \<Rightarrow> 'p \<Rightarrow> 'p"
  load_optim :: "string \<Rightarrow> 'o \<Rightarrow> 'o"
  forward :: "'p \<Rightarrow> bool \<Rightarrow> 's list \<Rightarrow> bool \<Rightarrow> 'v"
  zero_grad :: "'p \<Rightarrow> 'p"
  backward :: "'p \<Rightarrow> 's list \<Rightarrow> bool \<Rightarrow> 'p"
  opt_step :: "'p \<Rightarrow> 'o \<Rightarrow> 'p \<times> 'o"
  update_ema :: "'p \<Rightarrow> 'p"
  train_batch :: "nat \<Rightarrow> 's list"
  test_dataset :: "'s list"
  fzero :: 'v
  fadd :: "'v \<Rightarrow> 'v \<Rightarrow> 'v"
  fdiv :: "'v \<Rightarrow> int \<Rightarrow> 'v"

text \<open>\<open>forward env p t b l\<close>: the loss of parameters \<open>p\<close> in training mode \<open>t\<close> on batch \<open>b\<close>, with
  labels when \<open>l\<close>. \<open>fzero\<close> is the integer \<open>0\<close> the accumulators start from.\<close>

definition py_truediv :: "('p, 'o, 's, 'v) env \<Rightarrow> 'v \<Rightarrow> int \<Rightarrow> exn + 'v" where
  "py_truediv env x n = (if n = 0 then Inl ZeroDivisionError else Inr (fdiv env x n))"

subsection \<open>The local variables of the loop\<close>

record ('p, 'o, 's, 'v) locals =
  diffusion :: "'p module"
  optimizer :: 'o
  test_loader :: "'s data_loader"
  cursor :: nat
  acc_train_loss :: 'v

text \<open>\<open>cursor\<close> counts the batches already pulled from the cyclic training loader.\<close>

subsection \<open>\<^verbatim>\<open>main\<close>, lines 28 to 69: construction\<close>

definition wandb_init :: "fault \<Rightarrow> string \<Rightarrow> string \<Rightarrow> (unit, 's, 'v) comp" where
  "wandb_init flt project name =
     then_do (call flt None (WandbInit project name))
       (\<lambda>_ w. (Inr (), w\<lparr>wandb_runner := Some Run\<rparr>))"

definition initialize ::
  "args \<Rightarrow> ('p, 'o, 's, 'v) env \<Rightarrow> fault \<Rightarrow> (('p, 'o, 's, 'v) locals, 's, 'v) comp" where
  "initialize a env flt =
     then_do (call flt None GetDiffusion) (\<lambda>_.
     then_do (call flt None NewAdam) (\<lambda>_.
     then_do (case model_checkpoint a of
                None \<Rightarrow> returns (init_params env)
              | Some path \<Rightarrow> then_do (call flt None (LoadModel path))
                               (\<lambda>_. returns (load_model env path (init_params env)))) (\<lambda>p.
     then_do (case optim_checkpoint a of
                None \<Rightarrow> returns (adam env (init_params env))
              | Some path \<Rightarrow> then_do (call flt None (LoadOptim path))
                               (\<lambda>_. returns (load_optim env path (adam env (init_params env))))) (\<lambda>opt.
     then_do (if log_to_wandb a
              then (case project_name a of
                      None \<Rightarrow> raises ValueError
                    | Some project \<Rightarrow> then_do (wandb_init flt project (run_name a))
                                        (\<lambda>_. call flt None WandbWatch))
              else returns ()) (\<lambda>_.
     then_do (call flt None (NewDataset True)) (\<lambda>_.
     then_do (call flt None (NewDataset False)) (\<lambda>_.
     then_do (if batch_size a \<le> 0 then raises ValueError
              else call flt None (NewDataLoader True)) (\<lambda>_.
     then_do (of_result (new_data_loader (test_dataset env) (batch_size a))) (\<lambda>tl.
     then_do (call flt None (NewDataLoader False)) (\<lambda>_.
     returns \<lparr>diffusion = \<lparr>params = p, training = True\<rparr>, optimizer = opt,
              test_loader = tl, cursor = 0, acc_train_loss = fzero env\<rparr>))))))))))"

subsection \<open>Lines 72 to 91: one optimisation step\<close>

definition train_step ::
  "args \<Rightarrow> ('p, 'o, 's, 'v) env \<Rightarrow> fault \<Rightarrow> int \<Rightarrow> ('p, 'o, 's, 'v) locals
     \<Rightarrow> (('p, 'o, 's, 'v) locals, 's, 'v) comp" where
  "train_step a env flt iteration l =
     (let x = train_batch env (cursor l);
          loss = forward env (params (diffusion l)) True x (use_labels a);
          p1 = zero_grad env (params (diffusion l));
          p2 = backward env p1 x (use_labels a);
          stepped = opt_step env p2 (optimizer l)
      in
     then_do (call flt (Some iteration) SetTrain) (\<lambda>_.
     then_do (call flt (Some iteration) NextBatch) (\<lambda>_.
     then_do (call flt (Some iteration) (Forward True x)) (\<lambda>_.
     then_do (call flt (Some iteration) (Print (IterLoss iteration loss))) (\<lambda>_.
     then_do (call flt (Some iteration) ZeroGrad) (\<lambda>_.
     then_do (call flt (Some iteration) Backward) (\<lambda>_.
     then_do (call flt (Some iteration) OptStep) (\<lambda>_.
     then_do (call flt (Some iteration) UpdateEma) (\<lambda>_.
     returns (l\<lparr>diffusion := \<lparr>params = update_ema env (fst stepped), training = True\<rparr>,
                optimizer := snd stepped,
                cursor := Suc (cursor l),
                acc_train_loss := fadd env (acc_train_loss l) loss\<rparr>))))))))))"

subsection \<open>Lines 93 to 125: evaluation\<close>

fun test_pass ::
  "args \<Rightarrow> ('p, 'o, 's, 'v) env \<Rightarrow> fault \<Rightarrow> int \<Rightarrow> 'p \<Rightarrow> 's list list \<Rightarrow> 'v \<Rightarrow> ('v, 's, 'v) comp" where
  "test_pass a env flt iteration p [] test_loss = returns test_loss"
| "test_pass a env flt iteration p (b # bs) test_loss =
     then_do (call flt (Some iteration) (Forward False b)) (\<lambda>_.
       test_pass a env flt iteration p bs
         (fadd env test_loss (forward env p False b (use_labels a))))"

definition evaluate ::
  "args \<Rightarrow> ('p, 'o, 's, 'v) env \<Rightarrow> fault \<Rightarrow> int \<Rightarrow> ('p, 'o, 's, 'v) locals
     \<Rightarrow> (('p, 'o, 's, 'v) locals, 's, 'v) comp" where
  "evaluate a env flt iteration l =
     then_do (call flt (Some iteration) SetEval) (\<lambda>_.
     then_do (test_pass a env flt iteration (params (diffusion l))
                (loader_batches (test_loader l)) (fzero env)) (\<lambda>total.
     then_do (call flt (Some iteration) (Sample (use_labels a))) (\<lambda>_.
     then_do (of_result (py_truediv env total (loader_len (test_loader l)))) (\<lambda>test_loss.
     then_do (of_result (py_truediv env (acc_train_loss l) (log_rate a))) (\<lambda>train_loss.
     then_do (if log_to_wandb a
              then call flt (Some iteration) (WandbLog test_loss train_loss)
              else returns ()) (\<lambda>_.
     then_do (call flt (Some iteration) (Print (TestLoss test_loss))) (\<lambda>_.
     returns (l\<lparr>diffusion := (diffusion l)\<lparr>training := False\<rparr>,
                acc_train_loss := fzero env\<rparr>))))))))"

subsection \<open>Lines 127 to 132: checkpoint\<close>

text \<open>\<^verbatim>\<open>torch.save(obj, name)\<close> opens the file \<^verbatim>\<open>name\<close> for writing, which creates it, and then
  serialises the object into it; nothing makes the two steps atomic, and the file is written
  in place. The embedding makes them two calls, so that an exception can arrive before the
  file exists or while it is being written: after \<open>CreateFile name\<close> the file is on disk,
  partially written; \<open>TorchSave s name\<close> is recorded when the write of snapshot \<open>s\<close> has
  completed.\<close>

definition torch_save :: "fault \<Rightarrow> int \<Rightarrow> snapshot \<Rightarrow> string \<Rightarrow> (unit, 's, 'v) comp" where
  "torch_save flt iteration s name =
     then_do (call flt (Some iteration) (CreateFile name)) (\<lambda>_.
     call flt (Some iteration) (TorchSave s name))"

definition checkpoint :: "args \<Rightarrow> fault \<Rightarrow> int \<Rightarrow> (unit, 's, 'v) comp" where
  "checkpoint a flt iteration =
     then_do (torch_save flt iteration ModelState (model_filename a iteration)) (\<lambda>_.
     torch_save flt iteration OptimState (optim_filename a iteration))"

subsection \<open>Lines 71 to 132: the loop\<close>

definition iteration_body ::
  "args \<Rightarrow> ('p, 'o, 's, 'v) env \<Rightarrow> fault \<Rightarrow> int \<Rightarrow> ('p, 'o, 's, 'v) locals
     \<Rightarrow> (('p, 'o, 's, 'v) locals, 's, 'v) comp" where
  "iteration_body a env flt iteration l =
     then_do (train_step a env flt iteration l) (\<lambda>l1.
     then_do (of_result (py_mod iteration (log_rate a))) (\<lambda>r.
     then_do (if r = 0 then evaluate a env flt iteration l1 else returns l1) (\<lambda>l2.
     then_do (of_result (py_mod iteration (checkpoint_rate a))) (\<lambda>r'.
     then_do (if r' = 0 then checkpoint a flt iteration else returns ()) (\<lambda>_.
     returns l2)))))"

text \<open>\<^verbatim>\<open>for iteration in range(first, first + n)\<close>.\<close>

fun for_range ::
  "args \<Rightarrow> ('p, 'o, 's, 'v) env \<Rightarrow> fault \<Rightarrow> int \<Rightarrow> nat \<Rightarrow> ('p, 'o, 's, 'v) locals
     \<Rightarrow> (('p, 'o, 's, 'v) locals, 's, 'v) comp" where
  "for_range a env flt first 0 l = returns l"
| "for_range a env flt first (Suc n) l =
     then_do (iteration_body a env flt first l) (\<lambda>l'. for_range a env flt (first + 1) n l')"

subsection \<open>Lines 27 to 140: the \<^verbatim>\<open>try\<close> block, the handler and the cleanup\<close>

definition finish_runner :: "fault \<Rightarrow> (unit, 's, 'v) comp" where
  "finish_runner flt w =
     (case wandb_runner w of
        None \<Rightarrow> (Inl UnboundLocalError, w)
      | Some r \<Rightarrow> call flt None WandbFinish w)"

definition try_body :: "args \<Rightarrow> ('p, 'o, 's, 'v) env \<Rightarrow> fault \<Rightarrow> (unit, 's, 'v) comp" where
  "try_body a env flt =
     then_do (initialize a env flt) (\<lambda>l0.
     then_do (for_range a env flt 1 (nat (iterations a)) l0) (\<lambda>_.
     if log_to_wandb a then finish_runner flt else returns ()))"

definition start :: "args \<Rightarrow> ('s, 'v) world" where
  "start a = emit (Mkdir (log_dir a)) \<lparr>clock = 0, trace = [], wandb_runner = None\<rparr>"

definition handler :: "(exn + unit) \<times> ('s, 'v) world \<Rightarrow> (exn + unit) \<times> ('s, 'v) world" where
  "handler rw =
     (case rw of
        (Inl KeyboardInterrupt, w) \<Rightarrow> (Inr (), emit (Print InterruptNotice) w)
      | (r, w) \<Rightarrow> (r, w))"

definition cleanup :: "args \<Rightarrow> (exn + unit) \<times> ('s, 'v) world \<Rightarrow> (exn + unit) \<times> ('s, 'v) world" where
  "cleanup a rw =
     (case rw of (r, w) \<Rightarrow>
        if log_to_wandb a
        then (case wandb_runner w of
                None \<Rightarrow> (Inl UnboundLocalError, w)
              | Some x \<Rightarrow> (r, emit WandbFinish w))
        else (r, w))"

definition main :: "args \<Rightarrow> ('p, 'o, 's, 'v) env \<Rightarrow> fault \<Rightarrow> (exn + unit) \<times> ('s, 'v) world" where
  "main a env flt = cleanup a (handler (try_body a env flt (start a)))"

section \<open>Notions used to state and prove the properties\<close>

fun is_init :: "('s, 'v) event \<Rightarrow> bool" where
  "is_init (WandbInit p n) = True"
| "is_init _ = False"

definition runner_inv :: "('s, 'v) world \<Rightarrow> bool" where
  "runner_inv w = (wandb_runner w = (if list_ex is_init (calls w) then Some Run else None))"

definition cut_world :: "('s, 'v) world \<Rightarrow> (int option \<times> ('s, 'v) event) list \<Rightarrow> nat \<Rightarrow> ('s, 'v) world" where
  "cut_world w evs k =
     \<lparr>clock = Suc k, trace = trace w @ take (k - clock w) evs,
      wandb_runner = (if list_ex is_init (map snd (trace w @ take (k - clock w) evs)) then Some Run else None)\<rparr>"

definition sound :: "(fault \<Rightarrow> ('a, 's, 'v) comp) \<Rightarrow> bool" where
  "sound c = (\<forall>w. runner_inv w \<longrightarrow>
     (\<exists>evs. trace (snd (c None w)) = trace w @ evs \<and>
            clock (snd (c None w)) = clock w + length evs \<and>
            runner_inv (snd (c None w)) \<and>
            (\<forall>k e. c (Some (k, e)) w =
               (if clock w \<le> k \<and> k < clock w + length evs
                then (Inl e, cut_world w evs k) else c None w))))"

definition blank :: "('s, 'v) world" where
  "blank = \<lparr>clock = 0, trace = [], wandb_runner = None\<rparr>"

definition events_of :: "('a, 's, 'v) comp \<Rightarrow> (int option \<times> ('s, 'v) event) list" where
  "events_of c = trace (snd (c blank))"

definition result_of :: "('a, 's, 'v) comp \<Rightarrow> exn + 'a" where
  "result_of c = fst (c blank)"

definition advance :: "('s, 'v) world \<Rightarrow> (int option \<times> ('s, 'v) event) list \<Rightarrow> ('s, 'v) world" where
  "advance w evs = w\<lparr>clock := clock w + length evs, trace := trace w @ evs\<rparr>"

definition framed :: "('a, 's, 'v) comp \<Rightarrow> bool" where
  "framed c = (\<forall>w. c w = (result_of c, advance w (events_of c)))"

fun is_save :: "('s, 'v) event \<Rightarrow> bool" where
  "is_save (TorchSave k n) = True"
| "is_save _ = False"

fun is_test_pass :: "('s, 'v) event \<Rightarrow> bool" where
  "is_test_pass SetEval = True"
| "is_test_pass (Forward g b) = (\<not> g)"
| "is_test_pass _ = False"

definition loss_of :: "args \<Rightarrow> ('p, 'o, 's, 'v) env \<Rightarrow> ('p, 'o, 's, 'v) locals \<Rightarrow> 'v" where
  "loss_of a env l = forward env (params (diffusion l)) True (train_batch env (cursor l)) (use_labels a)"

definition mean_test_loss :: "args \<Rightarrow> ('p, 'o, 's, 'v) env \<Rightarrow> ('p, 'o, 's, 'v) locals \<Rightarrow> 'v" where
  "mean_test_loss a env l =
     fdiv env (foldl (fadd env) (fzero env)
         (map (\<lambda>b. forward env (params (diffusion l)) False b (use_labels a))
            (loader_batches (test_loader l))))
       (loader_len (test_loader l))"

definition iteration_ok :: "args \<Rightarrow> int \<Rightarrow> ('p, 'o, 's, 'v) locals \<Rightarrow> bool" where
  "iteration_ok a i l =
     (log_rate a \<noteq> 0 \<and> checkpoint_rate a \<noteq> 0 \<and>
      (i mod log_rate a = 0 \<longrightarrow> loader_len (test_loader l) \<noteq> 0))"

definition load_events :: "args \<Rightarrow> ('p, 'o, 's, 'v) env \<Rightarrow> (int option \<times> ('s, 'v) event) list" where
  "load_events a env =
     (case model_checkpoint a of None \<Rightarrow> [] | Some path \<Rightarrow> [(None, LoadModel path)]) @
     (case optim_checkpoint a of None \<Rightarrow> [] | Some path \<Rightarrow> [(None, LoadOptim path)])"

definition wandb_events :: "args \<Rightarrow> ('p, 'o, 's, 'v) env \<Rightarrow> (int option \<times> ('s, 'v) event) list" where
  "wandb_events a env =
     (if log_to_wandb a
      then (case project_name a of None \<Rightarrow> []
            | Some project \<Rightarrow> [(None, WandbInit project (run_name a)), (None, WandbWatch)])
      else [])"

definition init_fails :: "args \<Rightarrow> bool" where
  "init_fails a = ((log_to_wandb a \<and> project_name a = None) \<or> batch_size a \<le> 0)"

definition init_events :: "args \<Rightarrow> ('p, 'o, 's, 'v) env \<Rightarrow> (int option \<times> ('s, 'v) event) list" where
  "init_events a env =
     (None, GetDiffusion) # (None, NewAdam) # load_events a env @
     (if log_to_wandb a \<and> project_name a = None then []
      else wandb_events a env @ [(None, NewDataset True), (None, NewDataset False)] @
           (if batch_size a \<le> 0 then []
            else [(None, NewDataLoader True), (None, NewDataLoader False)]))"

definition initial_locals :: "args \<Rightarrow> ('p, 'o, 's, 'v) env \<Rightarrow> ('p, 'o, 's, 'v) locals" where
  "initial_locals a env =
     \<lparr>diffusion = \<lparr>params = (case model_checkpoint a of None \<Rightarrow> init_params env
                              | Some path \<Rightarrow> load_model env path (init_params env)),
                   training = True\<rparr>,
      optimizer = (case optim_checkpoint a of None \<Rightarrow> adam env (init_params env)
                   | Some path \<Rightarrow> load_optim env path (adam env (init_params env))),
      test_loader = \<lparr>dataset = test_dataset env, loader_batch_size = batch_size a\<rparr>,
      cursor = 0, acc_train_loss = fzero env\<rparr>"

definition opened :: "args \<Rightarrow> bool" where
  "opened a = (log_to_wandb a \<and> project_name a \<noteq> None)"

definition after_init :: "args \<Rightarrow> ('p, 'o, 's, 'v) env \<Rightarrow> ('s, 'v) world \<Rightarrow> ('s, 'v) world" where
  "after_init a env w = (let w' = advance w (init_events a env)
                     in if opened a then w'\<lparr>wandb_runner := Some Run\<rparr> else w')"

definition loop_events :: "args \<Rightarrow> ('p, 'o, 's, 'v) env \<Rightarrow> (int option \<times> ('s, 'v) event) list" where
  "loop_events a env =
     events_of (for_range a env None 1 (nat (iterations a)) (initial_locals a env))"

definition loop_result :: "args \<Rightarrow> ('p, 'o, 's, 'v) env \<Rightarrow> exn + ('p, 'o, 's, 'v) locals" where
  "loop_result a env =
     result_of (for_range a env None 1 (nat (iterations a)) (initial_locals a env))"

definition try_events :: "args \<Rightarrow> ('p, 'o, 's, 'v) env \<Rightarrow> (int option \<times> ('s, 'v) event) list" where
  "try_events a env =
     init_events a env @
     (if init_fails a then []
      else loop_events a env @
           (case loop_result a env of Inl e \<Rightarrow> []
            | Inr l \<Rightarrow> if log_to_wandb a then [(None, WandbFinish)] else []))"

definition try_result :: "args \<Rightarrow> ('p, 'o, 's, 'v) env \<Rightarrow> exn + unit" where
  "try_result a env =
     (if init_fails a then Inl ValueError
      else case loop_result a env of Inl e \<Rightarrow> Inl e | Inr l \<Rightarrow> Inr ())"

definition after_try :: "args \<Rightarrow> ('p, 'o, 's, 'v) env \<Rightarrow> ('s, 'v) world \<Rightarrow> ('s, 'v) world" where
  "after_try a env w = (let w' = advance w (try_events a env)
                        in if opened a then w'\<lparr>wandb_runner := Some Run\<rparr> else w')"

definition tail_events :: "args \<Rightarrow> ('p, 'o, 's, 'v) env \<Rightarrow> (int option \<times> ('s, 'v) event) list" where
  "tail_events a env =
     (case loop_result a env of Inl e \<Rightarrow> []
      | Inr l \<Rightarrow> if log_to_wandb a then [(None, WandbFinish)] else [])"

definition final_events :: "args \<Rightarrow> ('p, 'o, 's, 'v) env \<Rightarrow> (int option \<times> ('s, 'v) event) list" where
  "final_events a env = (if opened a then [(None, WandbFinish)] else [])"

subsection \<open>The checkpoint files\<close>

text \<open>The checkpoint files as the calls of a run leave them, starting from none: a file is
  partially written from its creation until the write into it has completed.\<close>

datatype file_state = Partial | Complete

fun write_file :: "(string \<rightharpoonup> file_state) \<Rightarrow> ('s, 'v) event \<Rightarrow> (string \<rightharpoonup> file_state)" where
  "write_file d (CreateFile n) = d(n \<mapsto> Partial)"
| "write_file d (TorchSave s n) = d(n \<mapsto> Complete)"
| "write_file d _ = d"

definition disk :: "('s, 'v) world \<Rightarrow> (string \<rightharpoonup> file_state)" where
  "disk w = foldl write_file Map.empty (calls w)"

text \<open>The two snapshots of iteration \<open>j\<close> are paired: both absent, or both completely written.\<close>

definition paired :: "args \<Rightarrow> (string \<rightharpoonup> file_state) \<Rightarrow> int \<Rightarrow> bool" where
  "paired a d j =
     ((d (model_filename a j) = None \<and> d (optim_filename a j) = None) \<or>
      (d (model_filename a j) = Some Complete \<and> d (optim_filename a j) = Some Complete))"

text \<open>The fault strikes the call \<open>ev\<close> of iteration \<open>j\<close>: in the undisturbed run, call number \<open>k\<close>
  of the \<^verbatim>\<open>try\<close> block (the trace begins with \<^verbatim>\<open>mkdir\<close>, made before it) is \<open>ev\<close>, made by
  iteration \<open>j\<close>.\<close>

definition strikes ::
  "args \<Rightarrow> ('p, 'o, 's, 'v) env \<Rightarrow> fault \<Rightarrow> int \<Rightarrow> ('s, 'v) event \<Rightarrow> bool" where
  "strikes a env f j ev =
     (case f of None \<Rightarrow> False
      | Some (k, e) \<Rightarrow> Suc k < length (trace (snd (main a env None))) \<and>
                       trace (snd (main a env None)) ! Suc k = (Some j, ev))"

text \<open>The four calls of a checkpoint, and the part of them already made when a given call of
  the checkpoint is the next one.\<close>

fun is_file :: "('s, 'v) event \<Rightarrow> bool" where
  "is_file (CreateFile n) = True"
| "is_file (TorchSave s n) = True"
| "is_file _ = False"

definition quad :: "args \<Rightarrow> int \<Rightarrow> (int option \<times> ('s, 'v) event) list" where
  "quad a j =
     [(Some j, CreateFile (model_filename a j)),
      (Some j, TorchSave ModelState (model_filename a j)),
      (Some j, CreateFile (optim_filename a j)),
      (Some j, TorchSave OptimState (optim_filename a j))]"

definition begun :: "args \<Rightarrow> int option \<times> ('s, 'v) event \<Rightarrow> (int option \<times> ('s, 'v) event) list" where
  "begun a e =
     (case fst e of None \<Rightarrow> []
      | Some j \<Rightarrow>
          if snd e = TorchSave ModelState (model_filename a j) then take 1 (quad a j)
          else if snd e = CreateFile (optim_filename a j) then take 2 (quad a j)
          else if snd e = TorchSave OptimState (optim_filename a j) then take 3 (quad a j)
          else [])"

text \<open>A list of calls made by iterations \<open>lo\<close> to \<open>hi - 1\<close> that, cut anywhere, holds whole
  checkpoints of iterations before the one of the next call, followed by the part already
  made of the checkpoint that the next call belongs to.\<close>

definition cut_shape :: "args \<Rightarrow> int \<Rightarrow> int \<Rightarrow> (int option \<times> ('s, 'v) event) list \<Rightarrow> bool" where
  "cut_shape a lo hi evs =
     ((\<forall>e \<in> set evs. \<forall>K. fst e = Some K \<longrightarrow> lo \<le> K \<and> K < hi) \<and>
      (\<forall>e \<in> set evs. is_file (snd e) \<longrightarrow> (\<exists>j. fst e = Some j \<and> j mod checkpoint_rate a = 0)) \<and>
      (\<forall>m \<le> length evs. \<exists>js.
         filter (\<lambda>e. is_file (snd e)) (take m evs) =
           concat (map (quad a) js) @ (if m < length evs then begun a (evs ! m) else []) \<and>
         (\<forall>j \<in> set js. lo \<le> j \<and> j < hi) \<and>
         (\<forall>K. m < length evs \<and> fst (evs ! m) = Some K \<longrightarrow> (\<forall>j \<in> set js. j < K))))"

text \<open>What the fault leaves of the checkpoint it interrupts.\<close>

definition leftover ::
  "args \<Rightarrow> ('p, 'o, 's, 'v) env \<Rightarrow> fault \<Rightarrow> (int option \<times> ('s, 'v) event) list" where
  "leftover a env f =
     (case f of None \<Rightarrow> []
      | Some (k, e) \<Rightarrow> if k < length (try_events a env) then begun a (try_events a env ! k) else [])"

text \<open>The disk after whole checkpoints of the iterations \<open>js\<close>.\<close>

definition add_pairs :: "args \<Rightarrow> int list \<Rightarrow> (string \<rightharpoonup> file_state) \<Rightarrow> (string \<rightharpoonup> file_state)" where
  "add_pairs a js d =
     (\<lambda>n. if \<exists>j \<in> set js. n = model_filename a j \<or> n = optim_filename a j
          then Some Complete else d n)"

subsection \<open>A small configuration to run\<close>

definition demo_env :: "(nat, nat, nat, real) env" where
  "demo_env =
     \<lparr>init_params = 0, adam = (\<lambda>p. 0), load_model = (\<lambda>path p. p), load_optim = (\<lambda>path opt. opt),
      forward = (\<lambda>p t b l. 1), zero_grad = (\<lambda>p. p), backward = (\<lambda>p b l. p),
      opt_step = (\<lambda>p opt. (Suc p, Suc opt)), update_ema = (\<lambda>p. p),
      train_batch = (\<lambda>n. [n, n]), test_dataset = [0, 1, 2, 3, 4],
      fzero = 0, fadd = (\<lambda>x y. x + y), fdiv = (\<lambda>x n. x / of_int n)\<rparr>"

definition demo_args :: args where
  "demo_args =
     \<lparr>log_dir = ''ckpt'', model_checkpoint = None, optim_checkpoint = None,
      log_to_wandb = False, project_name = Some ''ddpm'', run_name = ''run'',
      batch_size = 2, iterations = 2, use_labels = True, log_rate = 2, checkpoint_rate = 2\<rparr>"


section \<open>Lemmas\<close>

declare TrueI [simproc del: list_to_set_comprehension]

lemma sound_returns: "sound (\<lambda>f. returns x)"
  by (auto simp: sound_def returns_def)

lemma sound_raises: "sound (\<lambda>f. raises e)"
  by (auto simp: sound_def raises_def)

lemma sound_of_result: "sound (\<lambda>f. of_result r)"
  by (cases r) (simp_all add: of_result_def sound_returns sound_raises)

lemma sound_call: "\<not> is_init ev \<Longrightarrow> sound (\<lambda>f. call f it ev)"
  unfolding sound_def
proof (intro allI impI)
  fix w :: "('a, 'b) world"
  assume ev: "\<not> is_init ev" and inv: "runner_inv w"
  show "\<exists>evs. trace (snd (call None it ev w)) = trace w @ evs \<and>
            clock (snd (call None it ev w)) = clock w + length evs \<and>
            runner_inv (snd (call None it ev w)) \<and>
            (\<forall>k e. call (Some (k, e)) it ev w =
               (if clock w \<le> k \<and> k < clock w + length evs
                then (Inl e, cut_world w evs k) else call None it ev w))"
    using ev inv
    by (intro exI[of _ "[(it, ev)]"])
       (auto simp: call_def fault_at_def runner_inv_def calls_def cut_world_def)
qed

lemma sound_wandb_init: "sound (\<lambda>f. wandb_init f p n)"
  unfolding sound_def
proof (intro allI impI)
  fix w :: "('a, 'b) world"
  assume inv: "runner_inv w"
  show "\<exists>evs. trace (snd (wandb_init None p n w)) = trace w @ evs \<and>
            clock (snd (wandb_init None p n w)) = clock w + length evs \<and>
            runner_inv (snd (wandb_init None p n w)) \<and>
            (\<forall>k e. wandb_init (Some (k, e)) p n w =
               (if clock w \<le> k \<and> k < clock w + length evs
                then (Inl e, cut_world w evs k) else wandb_init None p n w))"
    using inv
    by (intro exI[of _ "[(None, WandbInit p n)]"])
       (auto simp: wandb_init_def then_do_def call_def fault_at_def runner_inv_def calls_def cut_world_def)
qed

lemma sound_then_do:
  fixes c1 :: "fault \<Rightarrow> ('a, 's, 'v) comp" and c2 :: "'a \<Rightarrow> fault \<Rightarrow> ('b, 's, 'v) comp"
  assumes c1: "sound c1" and c2: "\<And>x. sound (c2 x)"
  shows "sound (\<lambda>f. then_do (c1 f) (\<lambda>x. c2 x f))"
  unfolding sound_def
proof (intro allI impI)
  fix w :: "('s, 'v) world"
  assume inv: "runner_inv w"
  from c1 inv obtain evs1 where
    t1: "trace (snd (c1 None w)) = trace w @ evs1" and
    k1: "clock (snd (c1 None w)) = clock w + length evs1" and
    i1: "runner_inv (snd (c1 None w))" and
    f1: "\<And>k e. c1 (Some (k, e)) w =
               (if clock w \<le> k \<and> k < clock w + length evs1
                then (Inl e, cut_world w evs1 k) else c1 None w)"
    unfolding sound_def by blast
  let ?goal = "\<lambda>evs. trace (snd (then_do (c1 None) (\<lambda>x. c2 x None) w)) = trace w @ evs \<and>
            clock (snd (then_do (c1 None) (\<lambda>x. c2 x None) w)) = clock w + length evs \<and>
            runner_inv (snd (then_do (c1 None) (\<lambda>x. c2 x None) w)) \<and>
            (\<forall>k e. then_do (c1 (Some (k, e))) (\<lambda>x. c2 x (Some (k, e))) w =
               (if clock w \<le> k \<and> k < clock w + length evs
                then (Inl e, cut_world w evs k) else then_do (c1 None) (\<lambda>x. c2 x None) w))"
  obtain r1 w1 where r1: "c1 None w = (r1, w1)" by (cases "c1 None w")
  show "\<exists>evs. ?goal evs"
  proof (cases r1)
    case (Inl e1)
    have "?goal evs1"
      using t1 k1 i1 r1 Inl by (auto simp: then_do_def f1)
    then show ?thesis ..
  next
    case (Inr x)
    from i1 r1 have i1': "runner_inv w1" by simp
    from c2[of x] i1' obtain evs2 where
      t2: "trace (snd (c2 x None w1)) = trace w1 @ evs2" and
      k2: "clock (snd (c2 x None w1)) = clock w1 + length evs2" and
      i2: "runner_inv (snd (c2 x None w1))" and
      f2: "\<And>k e. c2 x (Some (k, e)) w1 =
               (if clock w1 \<le> k \<and> k < clock w1 + length evs2
                then (Inl e, cut_world w1 evs2 k) else c2 x None w1)"
      unfolding sound_def by blast
    have tw1: "trace w1 = trace w @ evs1" and kw1: "clock w1 = clock w + length evs1"
      using t1 k1 r1 by simp_all
    have cw: "cut_world w1 evs2 k = cut_world w (evs1 @ evs2) k" if "clock w1 \<le> k" for k
      using that tw1 kw1 by (simp add: cut_world_def)
    have cw': "cut_world w evs1 k = cut_world w (evs1 @ evs2) k" if "k < clock w + length evs1" for k
      using that by (simp add: cut_world_def)
    have "?goal (evs1 @ evs2)"
      using t2 k2 i2 r1 Inr tw1 kw1
      by (auto simp: then_do_def f1 f2 cw cw')
    then show ?thesis ..
  qed
qed

lemma sound_if:
  "(b \<Longrightarrow> sound c1) \<Longrightarrow> (\<not> b \<Longrightarrow> sound c2) \<Longrightarrow> sound (\<lambda>f. if b then c1 f else c2 f)"
  by (cases b) simp_all

lemma sound_case_option:
  "(x = None \<Longrightarrow> sound c1) \<Longrightarrow> (\<And>y. x = Some y \<Longrightarrow> sound (c2 y))
     \<Longrightarrow> sound (\<lambda>f. case x of None \<Rightarrow> c1 f | Some y \<Rightarrow> c2 y f)"
  by (cases x) simp_all

lemma sound_finish_runner: "sound (\<lambda>f. finish_runner f)"
  unfolding sound_def
proof (intro allI impI)
  fix w :: "('a, 'b) world"
  assume inv: "runner_inv w"
  show "\<exists>evs. trace (snd (finish_runner None w)) = trace w @ evs \<and>
            clock (snd (finish_runner None w)) = clock w + length evs \<and>
            runner_inv (snd (finish_runner None w)) \<and>
            (\<forall>k e. finish_runner (Some (k, e)) w =
               (if clock w \<le> k \<and> k < clock w + length evs
                then (Inl e, cut_world w evs k) else finish_runner None w))"
  proof (cases "wandb_runner w")
    case None
    then show ?thesis using inv
      by (intro exI[of _ "[]"]) (auto simp: finish_runner_def)
  next
    case (Some r)
    then show ?thesis using inv
      by (intro exI[of _ "[(None, WandbFinish)]"])
         (auto simp: finish_runner_def call_def fault_at_def runner_inv_def calls_def cut_world_def
               split: if_splits)
  qed
qed

lemmas sound_intros = sound_then_do sound_call sound_returns sound_raises sound_of_result
  sound_wandb_init sound_if sound_case_option sound_finish_runner

lemma sound_train_step: "sound (\<lambda>f. train_step a env f i l)"
  unfolding train_step_def Let_def
  by (intro sound_intros) simp_all

lemma sound_test_pass: "sound (\<lambda>f. test_pass a env f i p bs acc)"
  by (induction bs arbitrary: acc) (auto intro!: sound_intros)

lemma sound_evaluate: "sound (\<lambda>f. evaluate a env f i l)"
  unfolding evaluate_def
  by (intro sound_intros sound_test_pass) simp_all

lemma sound_checkpoint: "sound (\<lambda>f. checkpoint a f i)"
  unfolding checkpoint_def torch_save_def
  by (intro sound_intros) simp_all

lemma sound_iteration_body: "sound (\<lambda>f. iteration_body a env f i l)"
  unfolding iteration_body_def
  by (intro sound_intros sound_train_step sound_evaluate sound_checkpoint)

lemma sound_for_range: "sound (\<lambda>f. for_range a env f i n l)"
  by (induction n arbitrary: i l) (auto intro!: sound_intros sound_iteration_body)

lemma sound_initialize: "sound (\<lambda>f. initialize a env f)"
  unfolding initialize_def
  by (intro sound_intros) simp_all

lemma sound_try_body: "sound (\<lambda>f. try_body a env f)"
  unfolding try_body_def
  by (intro sound_intros sound_initialize sound_for_range)

lemma advance_Nil [simp]: "advance w [] = w"
  by (simp add: advance_def)

lemma advance_advance [simp]: "advance (advance w xs) ys = advance w (xs @ ys)"
  by (simp add: advance_def)

lemma advance_sel [simp]:
  "trace (advance w evs) = trace w @ evs"
  "clock (advance w evs) = clock w + length evs"
  "wandb_runner (advance w evs) = wandb_runner w"
  by (simp_all add: advance_def)

lemma framedI:
  assumes "\<And>w. c w = (r, advance w evs)"
  shows "framed c" and "result_of c = r" and "events_of c = evs"
proof -
  have b: "c blank = (r, advance blank evs)" by (rule assms)
  show r: "result_of c = r" by (simp add: result_of_def b)
  have "events_of c = trace (advance blank evs)" by (simp add: events_of_def b)
  then show e: "events_of c = evs" by (simp add: blank_def)
  show "framed c" unfolding framed_def r e using assms by simp
qed

lemma framedD: "framed c \<Longrightarrow> c w = (result_of c, advance w (events_of c))"
  by (simp add: framed_def)

lemma returns_frame:
  "framed (returns x)" "result_of (returns x) = Inr x" "events_of (returns x) = []"
  by (rule framedI[where evs="[]"]; simp add: returns_def)+

lemma raises_frame:
  "framed (raises e)" "result_of (raises e) = Inl e" "events_of (raises e) = []"
  by (rule framedI[where evs="[]"]; simp add: raises_def)+

lemma of_result_frame:
  "framed (of_result r)" "result_of (of_result r) = r" "events_of (of_result r) = []"
  by (cases r; simp add: of_result_def returns_frame raises_frame)+

lemma call_None: "call None it ev w = (Inr (), advance w [(it, ev)])"
  by (simp add: call_def fault_at_def advance_def)

lemma call_frame:
  "framed (call None it ev)" "result_of (call None it ev) = Inr ()"
  "events_of (call None it ev) = [(it, ev)]"
  by (rule framedI[where evs="[(it, ev)]"]; simp add: call_None)+

lemma then_do_frame:
  assumes "framed c1" and "\<And>x. framed (c2 x)"
  shows "framed (then_do c1 c2)"
    and "result_of (then_do c1 c2) = (case result_of c1 of Inl e \<Rightarrow> Inl e | Inr x \<Rightarrow> result_of (c2 x))"
    and "events_of (then_do c1 c2) =
           events_of c1 @ (case result_of c1 of Inl e \<Rightarrow> [] | Inr x \<Rightarrow> events_of (c2 x))"
proof -
  have eq: "then_do c1 c2 w =
      (case result_of c1 of Inl e \<Rightarrow> Inl e | Inr x \<Rightarrow> result_of (c2 x),
       advance w (events_of c1 @ (case result_of c1 of Inl e \<Rightarrow> [] | Inr x \<Rightarrow> events_of (c2 x))))" for w
    using framedD[OF assms(1), of w]
    by (cases "result_of c1") (simp_all add: then_do_def framedD[OF assms(2)])
  show "framed (then_do c1 c2)"
    and "result_of (then_do c1 c2) = (case result_of c1 of Inl e \<Rightarrow> Inl e | Inr x \<Rightarrow> result_of (c2 x))"
    and "events_of (then_do c1 c2) =
           events_of c1 @ (case result_of c1 of Inl e \<Rightarrow> [] | Inr x \<Rightarrow> events_of (c2 x))"
    by (rule framedI[OF eq])+
qed

lemma framed_if: "(b \<Longrightarrow> framed c1) \<Longrightarrow> (\<not> b \<Longrightarrow> framed c2) \<Longrightarrow> framed (if b then c1 else c2)"
  by simp

lemmas framed_intros = then_do_frame(1) call_frame(1) returns_frame(1) raises_frame(1)
  of_result_frame(1) framed_if

lemma framed_train_step: "framed (train_step a env None i l)"
  unfolding train_step_def Let_def by (intro framed_intros)

lemma framed_test_pass: "framed (test_pass a env None i p bs acc)"
  by (induction bs arbitrary: acc) (auto intro!: framed_intros)

lemma framed_evaluate: "framed (evaluate a env None i l)"
  unfolding evaluate_def by (intro framed_intros framed_test_pass)

lemma framed_checkpoint: "framed (checkpoint a None i)"
  unfolding checkpoint_def torch_save_def by (intro framed_intros)

lemma framed_iteration_body: "framed (iteration_body a env None i l)"
  unfolding iteration_body_def
  by (intro framed_intros framed_train_step framed_evaluate framed_checkpoint)

lemma framed_for_range: "framed (for_range a env None i n l)"
  by (induction n arbitrary: i l) (auto intro!: framed_intros framed_iteration_body)

lemmas frame_simps = then_do_frame call_frame returns_frame raises_frame of_result_frame
  framed_train_step framed_test_pass framed_evaluate framed_checkpoint framed_iteration_body
  framed_for_range

lemma train_step_events:
  "events_of (train_step a env None i l) =
     map (Pair (Some i)) [SetTrain, NextBatch, Forward True (train_batch env (cursor l)),
       Print (IterLoss i (loss_of a env l)), ZeroGrad, Backward, OptStep, UpdateEma]"
  by (simp add: train_step_def Let_def frame_simps loss_of_def)

lemma train_step_result:
  "\<exists>l1. result_of (train_step a env None i l) = Inr l1 \<and> test_loader l1 = test_loader l
      \<and> acc_train_loss l1 = fadd env (acc_train_loss l) (loss_of a env l)
      \<and> cursor l1 = Suc (cursor l)"
  by (simp add: train_step_def Let_def frame_simps loss_of_def)

lemma test_pass_events:
  "events_of (test_pass a env None i p bs acc) = map (\<lambda>b. (Some i, Forward False b)) bs"
  by (induction bs arbitrary: acc) (simp_all add: frame_simps)

lemma test_pass_result:
  "result_of (test_pass a env None i p bs acc) =
     Inr (foldl (fadd env) acc (map (\<lambda>b. forward env p False b (use_labels a)) bs))"
  by (induction bs arbitrary: acc) (simp_all add: frame_simps)

lemma evaluate_events:
  "events_of (evaluate a env None i l) =
     (Some i, SetEval) # map (\<lambda>b. (Some i, Forward False b)) (loader_batches (test_loader l))
       @ (Some i, Sample (use_labels a))
       # (if loader_len (test_loader l) = 0 \<or> log_rate a = 0 then []
          else (if log_to_wandb a
                then [(Some i, WandbLog (mean_test_loss a env l)
                                  (fdiv env (acc_train_loss l) (log_rate a)))]
                else [])
               @ [(Some i, Print (TestLoss (mean_test_loss a env l)))])"
  by (simp add: evaluate_def frame_simps test_pass_events test_pass_result py_truediv_def
      mean_test_loss_def)

lemma evaluate_result:
  "result_of (evaluate a env None i l) =
     (if loader_len (test_loader l) = 0 \<or> log_rate a = 0 then Inl ZeroDivisionError
      else Inr (l\<lparr>diffusion := (diffusion l)\<lparr>training := False\<rparr>, acc_train_loss := fzero env\<rparr>))"
  by (simp add: evaluate_def frame_simps test_pass_events test_pass_result py_truediv_def)

lemma checkpoint_events:
  "events_of (checkpoint a None i) =
     [(Some i, CreateFile (model_filename a i)),
      (Some i, TorchSave ModelState (model_filename a i)),
      (Some i, CreateFile (optim_filename a i)),
      (Some i, TorchSave OptimState (optim_filename a i))]"
  by (simp add: checkpoint_def torch_save_def frame_simps)

lemma checkpoint_result: "result_of (checkpoint a None i) = Inr ()"
  by (simp add: checkpoint_def torch_save_def frame_simps)

lemma iteration_result:
  "(\<not> iteration_ok a i l \<longrightarrow> result_of (iteration_body a env None i l) = Inl ZeroDivisionError) \<and>
   (iteration_ok a i l \<longrightarrow> (\<exists>l'. result_of (iteration_body a env None i l) = Inr l'
        \<and> test_loader l' = test_loader l))"
  using train_step_result[of a env i l]
  by (auto simp: iteration_body_def frame_simps iteration_ok_def py_mod_def evaluate_result
      checkpoint_result)

lemma iteration_saves:
  "filter (\<lambda>e. is_save (snd e)) (events_of (iteration_body a env None i l)) =
     (if iteration_ok a i l \<and> i mod checkpoint_rate a = 0
      then [(Some i, TorchSave ModelState (model_filename a i)),
            (Some i, TorchSave OptimState (optim_filename a i))]
      else [])"
  using train_step_result[of a env i l]
  by (auto simp: iteration_body_def frame_simps iteration_ok_def py_mod_def evaluate_result
      checkpoint_result checkpoint_events evaluate_events train_step_events)

lemma iteration_test_pass:
  "filter (\<lambda>e. is_test_pass (snd e)) (events_of (iteration_body a env None i l)) =
     (if log_rate a \<noteq> 0 \<and> i mod log_rate a = 0
      then (Some i, SetEval) # map (\<lambda>b. (Some i, Forward False b)) (loader_batches (test_loader l))
      else [])"
  using train_step_result[of a env i l]
  by (auto simp: iteration_body_def frame_simps iteration_ok_def py_mod_def evaluate_result
      checkpoint_result checkpoint_events evaluate_events train_step_events filter_map comp_def)

lemma iteration_stamps:
  "e \<in> set (events_of (iteration_body a env None i l)) \<Longrightarrow>
     fst e = Some i \<and> \<not> is_init (snd e) \<and> snd e \<noteq> WandbFinish"
  using train_step_result[of a env i l]
  by (auto simp: iteration_body_def frame_simps iteration_ok_def py_mod_def evaluate_result
      checkpoint_result checkpoint_events evaluate_events train_step_events split: if_splits)

lemma upto_shift: "[i..i + int (Suc n) - 1] = i # [i + 1..i + 1 + int n - 1]"
  by (simp add: upto_rec1)

lemma for_range_Suc_events:
  "events_of (for_range a env None i (Suc n) l) =
     events_of (iteration_body a env None i l) @
       (case result_of (iteration_body a env None i l) of Inl e \<Rightarrow> []
        | Inr l' \<Rightarrow> events_of (for_range a env None (i + 1) n l'))"
  by (simp add: frame_simps)

lemma for_range_Suc_result:
  "result_of (for_range a env None i (Suc n) l) =
       (case result_of (iteration_body a env None i l) of Inl e \<Rightarrow> Inl e
        | Inr l' \<Rightarrow> result_of (for_range a env None (i + 1) n l'))"
  by (simp add: frame_simps)

lemma for_range_0: "events_of (for_range a env None i 0 l) = []"
  "result_of (for_range a env None i 0 l) = Inr l"
  by (simp_all add: frame_simps)

declare for_range.simps [simp del]

lemma iteration_ok_cong: "test_loader l' = test_loader l \<Longrightarrow> iteration_ok a i l' = iteration_ok a i l"
  by (simp add: iteration_ok_def)

lemma for_range_result:
  "((\<forall>j. i \<le> j \<and> j < i + int n \<longrightarrow> iteration_ok a j l) \<longrightarrow>
      (\<exists>l'. result_of (for_range a env None i n l) = Inr l' \<and> test_loader l' = test_loader l)) \<and>
   (\<not> (\<forall>j. i \<le> j \<and> j < i + int n \<longrightarrow> iteration_ok a j l) \<longrightarrow>
      result_of (for_range a env None i n l) = Inl ZeroDivisionError)"
proof (induction n arbitrary: i l)
  case 0
  show ?case by (simp add: for_range_0)
next
  case (Suc n)
  show ?case
  proof (cases "iteration_ok a i l")
    case False
    then have "result_of (iteration_body a env None i l) = Inl ZeroDivisionError"
      using iteration_result[of a i l env] by simp
    moreover have "\<not> (\<forall>j. i \<le> j \<and> j < i + int (Suc n) \<longrightarrow> iteration_ok a j l)"
      using False by (intro notI) (drule spec[of _ i], simp)
    ultimately show ?thesis by (simp add: for_range_Suc_result)
  next
    case True
    then obtain l1 where l1: "result_of (iteration_body a env None i l) = Inr l1"
      and tl: "test_loader l1 = test_loader l"
      using iteration_result[of a i l env] by auto
    have rng: "(\<forall>j. i \<le> j \<and> j < i + int (Suc n) \<longrightarrow> iteration_ok a j l) =
               (\<forall>j. i + 1 \<le> j \<and> j < i + 1 + int n \<longrightarrow> iteration_ok a j l1)"
    proof -
      have "(i \<le> j \<and> j < i + int (Suc n)) = (j = i \<or> (i + 1 \<le> j \<and> j < i + 1 + int n))" for j
        by auto
      then show ?thesis using True by (auto simp: iteration_ok_cong[OF tl])
    qed
    show ?thesis
      unfolding rng for_range_Suc_result l1 using Suc.IH[of "i + 1" l1] tl by simp
  qed
qed

lemma for_range_stamps:
  "e \<in> set (events_of (for_range a env None i n l)) \<Longrightarrow>
     (\<exists>j. fst e = Some j \<and> i \<le> j \<and> j < i + int n) \<and> \<not> is_init (snd e) \<and> snd e \<noteq> WandbFinish"
proof (induction n arbitrary: i l)
  case 0
  then show ?case by (simp add: for_range_0)
next
  case (Suc n)
  from Suc.prems consider
    "e \<in> set (events_of (iteration_body a env None i l))"
    | l1 where "result_of (iteration_body a env None i l) = Inr l1"
        "e \<in> set (events_of (for_range a env None (i + 1) n l1))"
    by (cases "result_of (iteration_body a env None i l)") (auto simp: for_range_Suc_events)
  then show ?case
  proof cases
    case 1
    then have "fst e = Some i \<and> \<not> is_init (snd e) \<and> snd e \<noteq> WandbFinish"
      by (rule iteration_stamps)
    then show ?thesis by simp
  next
    case 2
    from Suc.IH[OF 2(2)] obtain j where "fst e = Some j" "i + 1 \<le> j" "j < i + 1 + int n"
      and "\<not> is_init (snd e)" "snd e \<noteq> WandbFinish" by blast
    then show ?thesis by (intro conjI exI[of _ j]) simp_all
  qed
qed

lemma for_range_projection:
  assumes step: "\<And>i l l1. result_of (iteration_body a env None i l) = Inr l1 \<Longrightarrow>
                   filter P (events_of (iteration_body a env None i l)) =
                   (if Q i then g i (test_loader l) else [])"
    and ok: "result_of (for_range a env None i n l) = Inr l'"
  shows "filter P (events_of (for_range a env None i n l)) =
           concat (map (\<lambda>j. g j (test_loader l)) (filter Q [i..i + int n - 1]))"
  using ok
proof (induction n arbitrary: i l)
  case 0
  show ?case by (simp add: for_range_0)
next
  case (Suc n)
  from Suc.prems obtain l1 where l1: "result_of (iteration_body a env None i l) = Inr l1"
    and rest: "result_of (for_range a env None (i + 1) n l1) = Inr l'"
    by (cases "result_of (iteration_body a env None i l)") (auto simp: for_range_Suc_result)
  have tl: "test_loader l1 = test_loader l"
    using iteration_result[of a i l env] l1 by (cases "iteration_ok a i l") auto
  show ?case
    unfolding for_range_Suc_events l1 upto_shift
    using Suc.IH[OF rest] by (simp add: step[OF l1] tl)
qed

lemma initialize_None:
  "initialize a env None w =
     (if init_fails a then Inl ValueError else Inr (initial_locals a env), after_init a env w)"
  by (auto simp: initialize_def then_do_def call_None returns_def raises_def load_events_def
      wandb_events_def wandb_init_def advance_def of_result_def new_data_loader_def
      init_fails_def init_events_def initial_locals_def after_init_def opened_def Let_def
      split: option.splits)

lemma try_body_None: "try_body a env None w = (try_result a env, after_try a env w)"
proof (cases "init_fails a")
  case True
  then show ?thesis
    by (simp add: try_body_def then_do_def initialize_None try_result_def after_try_def
        try_events_def after_init_def Let_def)
next
  case False
  have lp: "for_range a env None 1 (nat (iterations a)) (initial_locals a env) w' =
              (loop_result a env, advance w' (loop_events a env))" for w'
    unfolding loop_result_def loop_events_def by (rule framedD[OF framed_for_range])
  have op: "log_to_wandb a \<Longrightarrow> opened a"
    using False by (simp add: init_fails_def opened_def)
  show ?thesis
    using False op
    by (cases "loop_result a env")
       (auto simp: try_body_def then_do_def initialize_None lp try_result_def after_try_def
          try_events_def after_init_def Let_def finish_runner_def call_None returns_def advance_def)
qed

lemma runner_inv_start: "runner_inv (start a)"
  by (simp add: runner_inv_def start_def emit_def calls_def)

lemma start_sel [simp]: "clock (start a) = 0" "trace (start a) = [(None, Mkdir (log_dir a))]"
  "wandb_runner (start a) = None"
  by (simp_all add: start_def emit_def)

lemma after_try_sel [simp]:
  "trace (after_try a env w) = trace w @ try_events a env"
  "clock (after_try a env w) = clock w + length (try_events a env)"
  "wandb_runner (after_try a env w) = (if opened a then Some Run else wandb_runner w)"
  by (simp_all add: after_try_def Let_def)

lemma try_body_fault:
  fixes env :: "('p, 'o, 's, 'v) env"
  shows "try_body a env (Some (k, e)) (start a) =
     (if k < length (try_events a env) then (Inl e, cut_world (start a) (try_events a env) k)
      else (try_result a env, after_try a env (start a)))"
proof -
  have inv: "runner_inv (start a :: ('s, 'v) world)" by (rule runner_inv_start)
  from sound_try_body[of a env, unfolded sound_def, rule_format, OF inv]
  obtain evs where t: "trace (snd (try_body a env None (start a))) = trace (start a) @ evs"
    and f: "\<forall>k e. try_body a env (Some (k, e)) (start a) =
               (if clock (start a :: ('s, 'v) world) \<le> k
                  \<and> k < clock (start a :: ('s, 'v) world) + length evs
                then (Inl e, cut_world (start a) evs k) else try_body a env None (start a))"
    by blast
  from t have "evs = try_events a env" by (simp add: try_body_None)
  with f show ?thesis by (simp add: try_body_None)
qed

lemma cut_world_sel [simp]:
  "trace (cut_world w evs k) = trace w @ take (k - clock w) evs"
  "clock (cut_world w evs k) = Suc k"
  "wandb_runner (cut_world w evs k) =
     (if list_ex is_init (map snd (trace w @ take (k - clock w) evs)) then Some Run else None)"
  by (simp_all add: cut_world_def)

lemma loop_result_cases:
  "loop_result a env = Inl ZeroDivisionError \<or> (\<exists>l. loop_result a env = Inr l)"
  using for_range_result[of 1 "nat (iterations a)" a "initial_locals a env" env]
  unfolding loop_result_def
  by (cases "\<forall>j. 1 \<le> j \<and> j < 1 + int (nat (iterations a))
         \<longrightarrow> iteration_ok a j (initial_locals a env)") auto

lemma try_result_cases:
  "try_result a env = Inl ZeroDivisionError \<or> try_result a env = Inl ValueError
     \<or> try_result a env = Inr ()"
  using loop_result_cases[of a env] by (auto simp: try_result_def)

lemma init_events_all:
  "list_all (\<lambda>e. fst e = None \<and> \<not> is_save (snd e) \<and> snd e \<noteq> WandbFinish) (init_events a env)"
  by (simp add: init_events_def load_events_def wandb_events_def split: option.splits)

lemma init_events_stamps:
  "e \<in> set (init_events a env) \<Longrightarrow> fst e = None \<and> \<not> is_save (snd e) \<and> snd e \<noteq> WandbFinish"
  by (auto simp: init_events_def load_events_def wandb_events_def split: option.splits if_splits)

lemma loop_events_stamps:
  "e \<in> set (loop_events a env) \<Longrightarrow>
     (\<exists>j. fst e = Some j \<and> 1 \<le> j \<and> j \<le> iterations a) \<and> \<not> is_init (snd e) \<and> snd e \<noteq> WandbFinish"
  unfolding loop_events_def by (drule for_range_stamps) (auto split: if_splits)

lemma init_events_opened:
  "list_ex (\<lambda>e. is_init (snd e)) (init_events a env) = opened a"
  by (simp add: init_events_def load_events_def wandb_events_def opened_def
      split: option.splits)

lemma init_events_once: "length (filter (\<lambda>e. is_init (snd e)) (init_events a env)) \<le> 1"
  by (simp add: init_events_def load_events_def wandb_events_def split: option.splits)

lemma loop_events_no_init: "filter (\<lambda>e. is_init (snd e)) (loop_events a env) = []"
  using loop_events_stamps[of _ a env] by (simp add: filter_empty_conv)

lemma handler_other: "r \<noteq> Inl KeyboardInterrupt \<Longrightarrow> handler (r, w) = (r, w)"
  by (cases r; simp add: handler_def split: exn.splits)

lemma handler_interrupt:
  "handler (Inl KeyboardInterrupt, w) = (Inr (), emit (Print InterruptNotice) w)"
  by (simp add: handler_def)

lemma try_result_not_interrupt: "try_result a env \<noteq> Inl KeyboardInterrupt"
  using try_result_cases[of a env] by auto

lemma main_None:
  "main a env None = cleanup a (try_result a env, after_try a env (start a))"
  by (simp add: main_def try_body_None handler_other try_result_not_interrupt)

lemma main_fault:
  "main a env (Some (k, e)) =
     (if k < length (try_events a env)
      then cleanup a (handler (Inl e, cut_world (start a) (try_events a env) k))
      else main a env None)"
  by (simp add: main_def try_body_fault try_body_None)

lemma try_events_no_project:
  "log_to_wandb a \<Longrightarrow> project_name a = None \<Longrightarrow>
     try_events a env = (None, GetDiffusion) # (None, NewAdam) # load_events a env"
  by (simp add: try_events_def init_fails_def init_events_def)

lemma load_events_no_init: "\<not> list_ex is_init (map snd (load_events a env))"
  by (simp add: load_events_def split: option.splits)

lemma list_ex_take: "list_ex P (take k xs) \<Longrightarrow> list_ex P xs"
  by (auto simp: list_ex_iff dest: in_set_takeD)


lemma filter_take_le: "length (filter P (take k xs)) \<le> length (filter P xs)"
proof -
  have "filter P xs = filter P (take k xs) @ filter P (drop k xs)"
    by (metis append_take_drop_id filter_append)
  then show ?thesis by simp
qed

lemma try_events_split:
  fixes env :: "('p, 'o, 's, 'v) env"
  shows "try_events a env =
     init_events a env @ (if init_fails a then [] else loop_events a env @ tail_events a env)"
  by (simp add: try_events_def tail_events_def)

lemma tail_events_stamps: "e \<in> set (tail_events a env) \<Longrightarrow> e = (None, WandbFinish)"
  by (auto simp: tail_events_def split: sum.splits if_splits)

lemma try_events_init:
  "filter (\<lambda>e. is_init (snd e)) (try_events a env) = filter (\<lambda>e. is_init (snd e)) (init_events a env)"
proof -
  have t: "filter (\<lambda>e. is_init (snd e)) (tail_events a env) = []"
    by (auto simp: filter_empty_conv dest: tail_events_stamps)
  show ?thesis by (simp add: try_events_split loop_events_no_init t)
qed

lemma list_ex_filter: "list_ex P xs = (filter P xs \<noteq> [])"
  by (induction xs) auto

lemma try_events_opened: "list_ex (\<lambda>e. is_init (snd e)) (try_events a env) = opened a"
proof -
  have "list_ex (\<lambda>e. is_init (snd e)) (try_events a env) =
        list_ex (\<lambda>e. is_init (snd e)) (init_events a env)"
    by (simp add: list_ex_filter try_events_init)
  then show ?thesis by (simp add: init_events_opened)
qed

lemma try_events_once: "length (filter (\<lambda>e. is_init (snd e)) (try_events a env)) \<le> 1"
  unfolding try_events_init by (rule init_events_once)

lemma list_ex_map_snd: "list_ex P (map snd xs) = list_ex (\<lambda>e. P (snd e)) xs"
  by (induction xs) auto

lemma filter_map_snd: "filter P (map snd xs) = map snd (filter (\<lambda>e. P (snd e)) xs)"
  by (induction xs) auto

lemma opened_log: "opened a \<Longrightarrow> log_to_wandb a"
  by (simp add: opened_def)

lemma log_opened: "log_to_wandb a \<Longrightarrow> \<not> init_fails a \<Longrightarrow> opened a"
  by (auto simp: opened_def init_fails_def)

lemma main_None_trace:
  "trace (snd (main a env None)) =
     (None, Mkdir (log_dir a)) # try_events a env @ final_events a env"
  by (auto simp: main_None cleanup_def emit_def final_events_def opened_def)

lemma main_None_result:
  "fst (main a env None) =
     (if log_to_wandb a \<and> project_name a = None then Inl UnboundLocalError else try_result a env)"
  by (auto simp: main_None cleanup_def emit_def opened_def)

text \<open>A call stamped with an iteration lies after the construction phase.\<close>

lemma stamped_in_loop:
  fixes env :: "('p, 'o, 's, 'v) env"
  assumes k: "k < length (try_events a env)" and s: "fst (try_events a env ! k) = Some K"
  shows "\<not> init_fails a \<and> length (init_events a env) \<le> k"
proof -
  have i: "length (init_events a env) \<le> k"
  proof (rule ccontr)
    assume "\<not> length (init_events a env) \<le> k"
    then have lt: "k < length (init_events a env)" by simp
    then have "try_events a env ! k = init_events a env ! k"
      by (simp add: try_events_split nth_append)
    moreover have "init_events a env ! k \<in> set (init_events a env)"
      using lt by (rule nth_mem)
    ultimately have "fst (try_events a env ! k) = None"
      using init_events_stamps by metis
    with s show False by simp
  qed
  moreover have "\<not> init_fails a"
  proof
    assume "init_fails a"
    then have "try_events a env = init_events a env" by (simp add: try_events_split)
    with k i show False by simp
  qed
  ultimately show ?thesis by simp
qed


lemma take_try_events:
  assumes "\<not> init_fails a" and "length (init_events a env) \<le> k"
  shows "list_ex (\<lambda>e. is_init (snd e)) (take k (try_events a env)) = opened a"
proof -
  have "take k (try_events a env) =
          init_events a env @ take (k - length (init_events a env))
             (loop_events a env @ tail_events a env)"
    using assms by (simp add: try_events_split)
  moreover have "\<not> list_ex (\<lambda>e. is_init (snd e))
       (take (k - length (init_events a env)) (loop_events a env @ tail_events a env))"
  proof
    assume "list_ex (\<lambda>e. is_init (snd e))
       (take (k - length (init_events a env)) (loop_events a env @ tail_events a env))"
    then obtain e where e: "e \<in> set (loop_events a env @ tail_events a env)" and i: "is_init (snd e)"
      by (auto simp: list_ex_iff dest: in_set_takeD)
    from e consider "e \<in> set (loop_events a env)" | "e \<in> set (tail_events a env)" by auto
    then show False
    proof cases
      case 1
      from loop_events_stamps[OF 1] i show False by simp
    next
      case 2
      from tail_events_stamps[OF 2] i show False by simp
    qed
  qed
  ultimately show ?thesis by (simp add: init_events_opened)
qed

lemma try_events_finish:
  "log_to_wandb a \<Longrightarrow> try_result a env = Inr () \<Longrightarrow>
     try_events a env = init_events a env @ loop_events a env @ [(None, WandbFinish)]"
  by (auto simp: try_events_def try_result_def split: if_splits sum.splits)

lemma try_result_opened: "log_to_wandb a \<Longrightarrow> try_result a env = Inr () \<Longrightarrow> opened a"
  by (auto simp: try_result_def log_opened split: if_splits)

lemma div_succ:
  fixes N L :: int
  assumes L: "1 \<le> L"
  shows "(N + 1) div L = N div L + (if (N + 1) mod L = 0 then 1 else 0)"
proof -
  have dm: "N = L * (N div L) + N mod L" by simp
  have r0: "0 \<le> N mod L" and r1: "N mod L < L" using L by simp_all
  show ?thesis
  proof (cases "N mod L + 1 < L")
    case True
    have eq: "N + 1 = L * (N div L) + (N mod L + 1)" using dm by linarith
    have "(N + 1) div L = N div L"
      using eq r0 True by (intro int_div_pos_eq[where r = "N mod L + 1"]) linarith+
    moreover have "(N + 1) mod L = N mod L + 1"
      using eq r0 True by (intro int_mod_pos_eq[where q = "N div L"]) linarith+
    ultimately show ?thesis using r0 by simp
  next
    case False
    with r1 have e: "N mod L + 1 = L" by linarith
    have p: "L * (N div L + 1) = L * (N div L) + L" by (simp add: algebra_simps)
    have eq: "N + 1 = L * (N div L + 1) + 0"
      using dm e p by linarith
    have "(N + 1) div L = N div L + 1"
      using eq L by (intro int_div_pos_eq[where r = 0]) linarith+
    moreover have "(N + 1) mod L = 0"
      using eq L by (intro int_mod_pos_eq[where q = "N div L + 1"]) linarith+
    ultimately show ?thesis by simp
  qed
qed

lemma multiples_upto:
  assumes "1 \<le> (L::int)" and "0 \<le> N"
  shows "int (length (filter (\<lambda>j. j mod L = 0) [1..N])) = N div L"
  using assms(2)
proof (induction N rule: int_ge_induct)
  case base
  show ?case by simp
next
  case (step N)
  have split: "[1..N + 1] = [1..N] @ [N + 1]"
    using step.hyps by (simp add: upto_rec2)
  show ?case using step.IH by (simp add: split div_succ[OF assms(1)])
qed

lemma init_events_quiet:
  "filter (\<lambda>e. is_test_pass (snd e)) (init_events a env) = []"
  "filter (\<lambda>e. is_save (snd e)) (init_events a env) = []"
  by (simp_all add: init_events_def load_events_def wandb_events_def split: option.splits)

lemma tail_events_quiet:
  "filter (\<lambda>e. is_test_pass (snd e)) (tail_events a env) = []"
  "filter (\<lambda>e. is_save (snd e)) (tail_events a env) = []"
  by (simp_all add: tail_events_def split: sum.splits)

lemma final_events_quiet:
  "filter (\<lambda>e. is_test_pass (snd e)) (final_events a env) = []"
  "filter (\<lambda>e. is_save (snd e)) (final_events a env) = []"
  by (simp_all add: final_events_def)

lemma upto_nat: "0 \<le> N \<Longrightarrow> [1..1 + int (nat N) - 1] = [1..N]"
  by simp

lemma completed_run:
  assumes "fst (main a env None) = Inr ()"
  shows "\<not> init_fails a" and "\<exists>l. loop_result a env = Inr l"
    and "trace (snd (main a env None)) =
           (None, Mkdir (log_dir a)) # init_events a env @ loop_events a env
             @ tail_events a env @ final_events a env"
proof -
  from assms have tr: "try_result a env = Inr ()"
    by (simp add: main_None_result split: if_splits)
  then show nf: "\<not> init_fails a" by (auto simp: try_result_def split: if_splits)
  from tr nf show "\<exists>l. loop_result a env = Inr l"
    by (cases "loop_result a env") (auto simp: try_result_def)
  from nf show "trace (snd (main a env None)) =
           (None, Mkdir (log_dir a)) # init_events a env @ loop_events a env
             @ tail_events a env @ final_events a env"
    by (simp add: main_None_trace try_events_split)
qed

lemma loop_test_pass:
  assumes ok: "loop_result a env = Inr l" and N: "0 \<le> iterations a"
  shows "filter (\<lambda>e. is_test_pass (snd e)) (loop_events a env) =
           concat (map (\<lambda>j. (Some j, SetEval) #
                          map (\<lambda>b. (Some j, Forward False b))
                            (full_batches (nat (batch_size a)) (test_dataset env)))
                    (filter (\<lambda>j. log_rate a \<noteq> 0 \<and> j mod log_rate a = 0) [1..iterations a]))"
proof -
  have "filter (\<lambda>e. is_test_pass (snd e))
          (events_of (for_range a env None 1 (nat (iterations a)) (initial_locals a env))) =
        concat (map (\<lambda>j. (\<lambda>j tl. (Some j, SetEval) #
                          map (\<lambda>b. (Some j, Forward False b)) (loader_batches tl)) j
                       (test_loader (initial_locals a env)))
           (filter (\<lambda>j. log_rate a \<noteq> 0 \<and> j mod log_rate a = 0)
              [1..1 + int (nat (iterations a)) - 1]))"
    by (rule for_range_projection[OF _ ok[unfolded loop_result_def]])
       (simp add: iteration_test_pass)
  then show ?thesis
    using N by (simp add: loop_events_def initial_locals_def loader_batches_def)
qed

lemma loop_saves:
  assumes ok: "loop_result a env = Inr l" and N: "0 \<le> iterations a"
  shows "filter (\<lambda>e. is_save (snd e)) (loop_events a env) =
           concat (map (\<lambda>j. [(Some j, TorchSave ModelState (model_filename a j)),
                              (Some j, TorchSave OptimState (optim_filename a j))])
                    (filter (\<lambda>j. j mod checkpoint_rate a = 0) [1..iterations a]))"
proof -
  have step: "filter (\<lambda>e. is_save (snd e)) (events_of (iteration_body a env None i l0)) =
        (if i mod checkpoint_rate a = 0
         then (\<lambda>j tl. [(Some j, TorchSave ModelState (model_filename a j)),
                              (Some j, TorchSave OptimState (optim_filename a j))]) i (test_loader l0)
         else [])"
    if "result_of (iteration_body a env None i l0) = Inr l1" for i l0 l1
  proof -
    from that have "iteration_ok a i l0"
      using iteration_result[of a i l0 env] by (cases "iteration_ok a i l0") auto
    then show ?thesis by (simp add: iteration_saves)
  qed
  have "filter (\<lambda>e. is_save (snd e))
          (events_of (for_range a env None 1 (nat (iterations a)) (initial_locals a env))) =
        concat (map (\<lambda>j. (\<lambda>j tl. [(Some j, TorchSave ModelState (model_filename a j)),
                              (Some j, TorchSave OptimState (optim_filename a j))]) j
                       (test_loader (initial_locals a env)))
           (filter (\<lambda>j. j mod checkpoint_rate a = 0)
              [1..1 + int (nat (iterations a)) - 1]))"
    by (rule for_range_projection[OF step ok[unfolded loop_result_def]])
  then show ?thesis
    using N by (simp add: loop_events_def)
qed

lemma then_do_Inr:
  "then_do m k w = (Inr y, w') \<Longrightarrow> \<exists>x w1. m w = (Inr x, w1) \<and> k x w1 = (Inr y, w')"
  by (cases "m w") (auto simp: then_do_def split: sum.splits)

lemma call_Inr: "call f it ev w = (Inr u, w') \<Longrightarrow> w' = advance w [(it, ev)]"
  by (auto simp: call_def advance_def split: option.splits)

lemma returns_Inr: "returns x w = (Inr y, w') \<Longrightarrow> y = x \<and> w' = w"
  by (simp add: returns_def)

lemma of_result_Inr: "of_result r w = (Inr y, w') \<Longrightarrow> r = Inr y \<and> w' = w"
  by (cases r) (simp_all add: of_result_def returns_def raises_def)



lemma test_pass_Inr:
  "test_pass a env f i p bs acc w = (Inr t, w') \<Longrightarrow>
     t = foldl (fadd env) acc (map (\<lambda>b. forward env p False b (use_labels a)) bs) \<and>
     w' = advance w (map (\<lambda>b. (Some i, Forward False b)) bs)"
proof (induction bs arbitrary: acc w)
  case Nil
  then show ?case by (simp add: returns_def)
next
  case (Cons b bs)
  from Cons.prems obtain w1 where c: "call f (Some i) (Forward False b) w = (Inr (), w1)"
    and r: "test_pass a env f i p bs (fadd env acc (forward env p False b (use_labels a))) w1
              = (Inr t, w')"
    by (auto dest!: then_do_Inr)
  from call_Inr[OF c] Cons.IH[OF r] show ?case by simp
qed

lemma evaluate_Inr:
  assumes "evaluate a env f i l w = (Inr l2, w2)"
  shows "l2 = l\<lparr>diffusion := (diffusion l)\<lparr>training := False\<rparr>, acc_train_loss := fzero env\<rparr>"
    and "w2 = advance w (events_of (evaluate a env None i l))"
    and "loader_len (test_loader l) \<noteq> 0" and "log_rate a \<noteq> 0"
proof -
  from assms obtain w1 t w3 w4 tl trl w5 w6 where
    c1: "call f (Some i) SetEval w = (Inr (), w1)" and
    tp: "test_pass a env f i (params (diffusion l)) (loader_batches (test_loader l)) (fzero env) w1
           = (Inr t, w3)" and
    c2: "call f (Some i) (Sample (use_labels a)) w3 = (Inr (), w4)" and
    d1: "py_truediv env t (loader_len (test_loader l)) = Inr tl" and
    d2: "py_truediv env (acc_train_loss l) (log_rate a) = Inr trl" and
    c3: "(if log_to_wandb a then call f (Some i) (WandbLog tl trl) else returns ()) w4
           = (Inr (), w5)" and
    c4: "call f (Some i) (Print (TestLoss tl)) w5 = (Inr (), w6)" and
    r: "l2 = l\<lparr>diffusion := (diffusion l)\<lparr>training := False\<rparr>, acc_train_loss := fzero env\<rparr>"
       "w2 = w6"
    unfolding evaluate_def
    by (auto dest!: then_do_Inr returns_Inr of_result_Inr)
  show "l2 = l\<lparr>diffusion := (diffusion l)\<lparr>training := False\<rparr>, acc_train_loss := fzero env\<rparr>"
    by (rule r)
  from d1 show n0: "loader_len (test_loader l) \<noteq> 0"
    by (auto simp: py_truediv_def split: if_splits)
  from d2 show l0: "log_rate a \<noteq> 0"
    by (auto simp: py_truediv_def split: if_splits)
  from d1 n0 have tl: "tl = fdiv env t (loader_len (test_loader l))"
    by (simp add: py_truediv_def)
  from d2 l0 have trl: "trl = fdiv env (acc_train_loss l) (log_rate a)"
    by (simp add: py_truediv_def)
  have w5: "w5 = advance w4 (if log_to_wandb a then [(Some i, WandbLog tl trl)] else [])"
    using c3 by (auto dest: call_Inr returns_Inr split: if_splits)
  show "w2 = advance w (events_of (evaluate a env None i l))"
    using call_Inr[OF c1] test_pass_Inr[OF tp] call_Inr[OF c2] w5 call_Inr[OF c4] r(2) n0 l0 tl trl
    by (simp add: evaluate_events mean_test_loss_def)
qed



text \<open>The batches of a loader.\<close>

lemma length_full_batches: "0 < n \<Longrightarrow> length (full_batches n xs) = length xs div n"
proof (induction n xs rule: full_batches.induct)
  case (1 n xs)
  show ?case
  proof (cases "length xs < n")
    case True
    then show ?thesis by (simp add: full_batches.simps[of n xs])
  next
    case False
    with 1 have "length (full_batches n (drop n xs)) = (length xs - n) div n" by simp
    with False 1(2) show ?thesis
      by (simp add: full_batches.simps[of n xs] le_div_geq)
  qed
qed

lemma full_batches_sizes: "b \<in> set (full_batches n xs) \<Longrightarrow> length b = n"
proof (induction n xs rule: full_batches.induct)
  case (1 n xs)
  show ?case
  proof (cases "n = 0 \<or> length xs < n")
    case True
    with 1(2) show ?thesis by (simp add: full_batches.simps[of n xs])
  next
    case False
    with 1 show ?thesis
      by (auto simp: full_batches.simps[of n xs])
  qed
qed

lemma concat_full_batches:
  "0 < n \<Longrightarrow> concat (full_batches n xs) = take (n * (length xs div n)) xs"
proof (induction n xs rule: full_batches.induct)
  case (1 n xs)
  show ?case
  proof (cases "length xs < n")
    case True
    then show ?thesis by (simp add: full_batches.simps[of n xs])
  next
    case False
    with 1 have ih: "concat (full_batches n (drop n xs)) =
                       take (n * ((length xs - n) div n)) (drop n xs)" by simp
    have d: "length xs div n = Suc ((length xs - n) div n)"
      using False 1(2) by (simp add: le_div_geq)
    have "take (n * Suc ((length xs - n) div n)) xs =
            take n xs @ take (n * ((length xs - n) div n)) (drop n xs)"
      by (simp add: take_add)
    with ih d False 1(2) show ?thesis
      by (simp add: full_batches.simps[of n xs])
  qed
qed

lemma loader_len_batches:
  "0 < loader_batch_size ld \<Longrightarrow> loader_len ld = int (length (loader_batches ld))"
  by (simp add: loader_len_def loader_batches_def length_full_batches zdiv_int)

lemma loader_len_zero:
  "0 < loader_batch_size ld \<Longrightarrow>
     (loader_len ld = 0) = (int (length (dataset ld)) < loader_batch_size ld)"
proof -
  assume b: "0 < loader_batch_size ld"
  have p: "(0 < loader_len ld) = (loader_batch_size ld \<le> int (length (dataset ld)))"
    unfolding loader_len_def using b by (rule pos_imp_zdiv_pos_iff)
  have n: "0 \<le> loader_len ld"
    unfolding loader_len_def using b by (simp add: pos_imp_zdiv_nonneg_iff)
  from p n show ?thesis by linarith
qed


lemma find_append:
  "find P (xs @ ys) = (case find P xs of None \<Rightarrow> find P ys | Some x \<Rightarrow> Some x)"
  by (induction xs) auto

lemma first_multiple:
  assumes "1 \<le> (L::int)" and "L \<le> N"
  shows "find (\<lambda>j. j mod L = 0) [1..N] = Some L"
proof -
  have "[1..N] = [1..L - 1] @ [L..N]"
    using assms by (rule upto_split1)
  moreover have "[L..N] = L # [L + 1..N]"
    using assms by (simp add: upto_rec1)
  ultimately have split: "[1..N] = [1..L - 1] @ L # [L + 1..N]" by simp
  have "find (\<lambda>j. j mod L = 0) [1..L - 1] = None"
    by (auto simp: find_None_iff)
  then show ?thesis by (simp add: split find_append)
qed

lemma for_range_first_failure:
  assumes empty: "loader_batches (test_loader l) = []" "loader_len (test_loader l) = 0"
    and L: "log_rate a \<noteq> 0" and C: "checkpoint_rate a \<noteq> 0"
  shows "filter (\<lambda>e. is_test_pass (snd e)) (events_of (for_range a env None i n l)) =
           (case find (\<lambda>j. j mod log_rate a = 0) [i..i + int n - 1] of
              None \<Rightarrow> [] | Some j \<Rightarrow> [(Some j, SetEval)])"
  using empty
proof (induction n arbitrary: i l)
  case 0
  show ?case by (simp add: for_range_0)
next
  case (Suc n)
  show ?case
  proof (cases "i mod log_rate a = 0")
    case True
    then have "\<not> iteration_ok a i l" using Suc.prems by (simp add: iteration_ok_def)
    then have "result_of (iteration_body a env None i l) = Inl ZeroDivisionError"
      using iteration_result[of a i l env] by simp
    then show ?thesis
      unfolding for_range_Suc_events upto_shift
      using True L Suc.prems by (simp add: iteration_test_pass)
  next
    case False
    then have "iteration_ok a i l" using L C by (simp add: iteration_ok_def)
    then obtain l1 where l1: "result_of (iteration_body a env None i l) = Inr l1"
      and tl: "test_loader l1 = test_loader l"
      using iteration_result[of a i l env] by auto
    have ih: "filter (\<lambda>e. is_test_pass (snd e)) (events_of (for_range a env None (i + 1) n l1)) =
           (case find (\<lambda>j. j mod log_rate a = 0) [i + 1..i + 1 + int n - 1] of
              None \<Rightarrow> [] | Some j \<Rightarrow> [(Some j, SetEval)])"
      using Suc.prems by (intro Suc.IH) (simp_all add: tl)
    show ?thesis
      unfolding for_range_Suc_events upto_shift l1
      using False L ih by (simp add: iteration_test_pass)
  qed
qed

lemma length_saves:
  "length (filter is_save (calls w)) = length (filter (\<lambda>e. is_save (snd e)) (trace w))"
  by (simp add: calls_def filter_map_snd)

text \<open>Distinct iterations give distinct file names, and no model file is an optimizer file.\<close>

lemma digit_char_code: "d < 10 \<Longrightarrow> of_char (digit_char d) = 48 + d"
proof -
  assume "d < 10"
  then have "d = 0 \<or> d = 1 \<or> d = 2 \<or> d = 3 \<or> d = 4 \<or> d = 5 \<or> d = 6 \<or> d = 7 \<or> d = 8 \<or> d = 9"
    by arith
  then show ?thesis by (elim disjE) (simp_all add: digit_char_def)
qed

lemma digit_char_inj:
  assumes a: "d < 10" and b: "d' < 10" and eq: "digit_char d = digit_char d'"
  shows "d = d'"
proof -
  have "48 + d = (of_char (digit_char d) :: nat)" using digit_char_code[OF a] by (rule sym)
  also have "\<dots> = of_char (digit_char d')" by (simp only: eq)
  also have "\<dots> = 48 + d'" by (rule digit_char_code[OF b])
  finally show ?thesis by (simp only: add_left_cancel)
qed

lemma digit_char_not_minus:
  assumes a: "d < 10"
  shows "digit_char d \<noteq> CHR ''-''"
proof
  assume "digit_char d = CHR ''-''"
  then have "(of_char (digit_char d) :: nat) = of_char (CHR ''-'')" by (simp only:)
  with digit_char_code[OF a] show False by simp
qed

lemma str_nat_nonempty: "str_nat n \<noteq> []"
  by (subst str_nat.simps) simp

lemma str_nat_no_minus: "c \<in> set (str_nat n) \<Longrightarrow> c \<noteq> CHR ''-''"
proof (induction n rule: str_nat.induct)
  case (1 n)
  show ?case
  proof (cases "n < 10")
    case True
    then have "str_nat n = [digit_char n]" by (subst str_nat.simps) simp
    with "1.prems" True show ?thesis by (simp add: digit_char_not_minus)
  next
    case False
    then have "str_nat n = str_nat (n div 10) @ [digit_char (n mod 10)]"
      by (subst str_nat.simps) simp
    moreover have "digit_char (n mod 10) \<noteq> CHR ''-''" by (rule digit_char_not_minus) simp
    ultimately show ?thesis using "1.prems" "1.IH"[OF False] by auto
  qed
qed

lemma str_nat_inj: "str_nat n = str_nat m \<Longrightarrow> n = m"
proof (induction n arbitrary: m rule: str_nat.induct)
  case (1 n)
  show ?case
  proof (cases "n < 10")
    case True
    then have n: "str_nat n = [digit_char n]" by (subst str_nat.simps) simp
    show ?thesis
    proof (cases "m < 10")
      case m: True
      then have "str_nat m = [digit_char m]" by (subst str_nat.simps) simp
      with n "1.prems" have "digit_char n = digit_char m" by simp
      with True m show ?thesis by (rule digit_char_inj)
    next
      case False
      then have "str_nat m = str_nat (m div 10) @ [digit_char (m mod 10)]"
        by (subst str_nat.simps) simp
      with n "1.prems" str_nat_nonempty[of "m div 10"] show ?thesis by (cases "str_nat (m div 10)") auto
    qed
  next
    case False
    then have n: "str_nat n = str_nat (n div 10) @ [digit_char (n mod 10)]"
      by (subst str_nat.simps) simp
    show ?thesis
    proof (cases "m < 10")
      case True
      then have "str_nat m = [digit_char m]" by (subst str_nat.simps) simp
      with n "1.prems" str_nat_nonempty[of "n div 10"] show ?thesis by (cases "str_nat (n div 10)") auto
    next
      case m: False
      then have "str_nat m = str_nat (m div 10) @ [digit_char (m mod 10)]"
        by (subst str_nat.simps) simp
      with n "1.prems" have q: "str_nat (n div 10) = str_nat (m div 10)"
        and r: "digit_char (n mod 10) = digit_char (m mod 10)" by simp_all
      from "1.IH"[OF False q] have "n div 10 = m div 10" .
      moreover have "n mod 10 = m mod 10" by (rule digit_char_inj[OF _ _ r]) simp_all
      ultimately show ?thesis by (metis div_mult_mod_eq)
    qed
  qed
qed

lemma str_int_inj: "str_int i = str_int j \<Longrightarrow> i = j"
proof -
  assume eq: "str_int i = str_int j"
  have hd: "hd (str_nat n) \<noteq> CHR ''-''" for n
    using str_nat_no_minus[of "hd (str_nat n)" n] str_nat_nonempty[of n] by simp
  consider "i < 0" "j < 0" | "i < 0" "\<not> j < 0" | "\<not> i < 0" "j < 0" | "\<not> i < 0" "\<not> j < 0" by blast
  then show ?thesis
  proof cases
    case 1
    with eq have "str_nat (nat (- i)) = str_nat (nat (- j))" by (simp add: str_int_def)
    then have "nat (- i) = nat (- j)" by (rule str_nat_inj)
    with 1 show ?thesis by simp
  next
    case 2
    with eq have "CHR ''-'' # str_nat (nat (- i)) = str_nat (nat j)" by (simp add: str_int_def)
    with hd[of "nat j"] show ?thesis by (metis list.sel(1))
  next
    case 3
    with eq have "CHR ''-'' # str_nat (nat (- j)) = str_nat (nat i)" by (simp add: str_int_def)
    with hd[of "nat i"] show ?thesis by (metis list.sel(1))
  next
    case 4
    with eq have "str_nat (nat i) = str_nat (nat j)" by (simp add: str_int_def)
    then have "nat i = nat j" by (rule str_nat_inj)
    with 4 show ?thesis by simp
  qed
qed

lemma model_filename_inj [simp]: "(model_filename a i = model_filename a j) = (i = j)"
  by (auto simp: model_filename_def dest: str_int_inj)

lemma optim_filename_inj [simp]: "(optim_filename a i = optim_filename a j) = (i = j)"
  by (auto simp: optim_filename_def dest: str_int_inj)

lemma model_not_optim [simp]: "model_filename a i \<noteq> optim_filename a j"
  "optim_filename a j \<noteq> model_filename a i"
  by (auto simp: model_filename_def optim_filename_def)

text \<open>The disk that a list of calls leaves.\<close>

lemma write_file_other: "\<not> is_file ev \<Longrightarrow> write_file d ev = d"
  by (cases ev) simp_all

lemma disk_filter:
  "foldl write_file d (map snd evs) =
     foldl write_file d (map snd (filter (\<lambda>e. is_file (snd e)) evs))"
  by (induction evs arbitrary: d) (simp_all add: write_file_other)

lemma add_pairs_Nil [simp]: "add_pairs a [] d = d"
  by (simp add: add_pairs_def)

lemma disk_quad:
  "foldl write_file d (map snd (quad a j)) =
     d(model_filename a j \<mapsto> Complete, optim_filename a j \<mapsto> Complete)"
  by (simp add: quad_def)

lemma add_pairs_Cons:
  "add_pairs a (j # js) d =
     add_pairs a js (d(model_filename a j \<mapsto> Complete, optim_filename a j \<mapsto> Complete))"
  by (rule ext) (auto simp: add_pairs_def)

lemma disk_quads:
  "foldl write_file d (map snd (concat (map (quad a) js))) = add_pairs a js d"
proof (induction js arbitrary: d)
  case Nil
  show ?case by simp
next
  case (Cons j js)
  show ?case by (simp add: disk_quad Cons.IH add_pairs_Cons del: fun_upd_apply)
qed

lemma saves_quads:
  "length (filter (\<lambda>e. is_save (snd e)) (concat (map (quad a) js))) = 2 * length js"
  by (induction js) (simp_all add: quad_def)

lemma add_pairs_model [simp]:
  "add_pairs a js d (model_filename a i) = (if i \<in> set js then Some Complete else d (model_filename a i))"
  by (auto simp: add_pairs_def)

lemma add_pairs_optim [simp]:
  "add_pairs a js d (optim_filename a i) = (if i \<in> set js then Some Complete else d (optim_filename a i))"
  by (auto simp: add_pairs_def)

lemma add_pairs_not_partial: "add_pairs a js Map.empty n \<noteq> Some Partial"
  by (simp add: add_pairs_def)

text \<open>Cutting a run inside or outside a checkpoint.\<close>

lemma begun_other: "\<not> is_file (snd e) \<Longrightarrow> begun a e = []"
  by (cases e; cases "fst e") (auto simp: begun_def)

lemma quad_nonempty: "concat (map (quad a) js) = [] \<Longrightarrow> js = []"
  by (cases js) (simp_all add: quad_def)

lemma cut_shape_first:
  assumes "cut_shape a lo hi evs" and "evs \<noteq> []"
  shows "begun a (evs ! 0) = []"
proof -
  from assms(1) obtain js where
    "filter (\<lambda>e. is_file (snd e)) (take 0 evs) =
       concat (map (quad a) js) @ (if 0 < length evs then begun a (evs ! 0) else [])"
    unfolding cut_shape_def by (auto dest!: spec[of _ "0::nat"])
  with assms(2) show ?thesis by simp
qed

lemma cut_shape_whole:
  assumes "cut_shape a lo hi evs"
  shows "\<exists>js. filter (\<lambda>e. is_file (snd e)) evs = concat (map (quad a) js) \<and>
              (\<forall>j \<in> set js. lo \<le> j \<and> j < hi)"
proof -
  from assms have "\<exists>js. filter (\<lambda>e. is_file (snd e)) (take (length evs) evs) =
       concat (map (quad a) js) @ (if length evs < length evs then begun a (evs ! length evs) else []) \<and>
       (\<forall>j \<in> set js. lo \<le> j \<and> j < hi) \<and>
       (\<forall>K. length evs < length evs \<and> fst (evs ! length evs) = Some K \<longrightarrow> (\<forall>j \<in> set js. j < K))"
    unfolding cut_shape_def by (auto dest!: spec[of _ "length evs"])
  then show ?thesis by auto
qed

lemma cut_shape_quiet:
  assumes q: "\<And>e. e \<in> set evs \<Longrightarrow> \<not> is_file (snd e)"
    and s: "\<And>e K. e \<in> set evs \<Longrightarrow> fst e = Some K \<Longrightarrow> lo \<le> K \<and> K < hi"
  shows "cut_shape a lo hi evs"
  unfolding cut_shape_def
proof (intro conjI ballI allI impI)
  fix e K assume "e \<in> set evs" "fst e = Some K"
  then show "lo \<le> K" "K < hi" using s by auto
next
  fix e assume "e \<in> set evs" "is_file (snd e)"
  with q show "\<exists>j. fst e = Some j \<and> j mod checkpoint_rate a = 0" by auto
next
  fix m assume m: "m \<le> length evs"
  have f: "filter (\<lambda>e. is_file (snd e)) (take m evs) = []"
    using q by (auto simp: filter_empty_conv dest: in_set_takeD)
  have b: "m < length evs \<Longrightarrow> begun a (evs ! m) = []"
    using q by (intro begun_other) simp
  show "\<exists>js. filter (\<lambda>e. is_file (snd e)) (take m evs) =
           concat (map (quad a) js) @ (if m < length evs then begun a (evs ! m) else []) \<and>
         (\<forall>j \<in> set js. lo \<le> j \<and> j < hi) \<and>
         (\<forall>K. m < length evs \<and> fst (evs ! m) = Some K \<longrightarrow> (\<forall>j \<in> set js. j < K))"
    by (rule exI[of _ "[]"]) (simp add: f b)
qed

lemma cut_shape_quad:
  assumes "i mod checkpoint_rate a = 0"
  shows "cut_shape a i (i + 1) (quad a i :: (int option \<times> ('s, 'v) event) list)"
  unfolding cut_shape_def
proof (intro conjI ballI allI impI)
  fix e K assume "e \<in> set (quad a i)" "fst e = Some K"
  then show "i \<le> K" "K < i + 1" by (auto simp: quad_def)
next
  fix e :: "int option \<times> ('s, 'v) event"
  assume "e \<in> set (quad a i)" "is_file (snd e)"
  with assms show "\<exists>j. fst e = Some j \<and> j mod checkpoint_rate a = 0" by (auto simp: quad_def)
next
  fix m assume "m \<le> length (quad a i :: (int option \<times> ('s, 'v) event) list)"
  then have "m = 0 \<or> m = 1 \<or> m = 2 \<or> m = 3 \<or> m = 4" by (simp add: quad_def) arith
  then show "\<exists>js. filter (\<lambda>e. is_file (snd e)) (take m (quad a i :: (int option \<times> ('s, 'v) event) list)) =
           concat (map (quad a) js) @ (if m < length (quad a i :: (int option \<times> ('s, 'v) event) list) then begun a (quad a i ! m) else []) \<and>
         (\<forall>j \<in> set js. i \<le> j \<and> j < i + 1) \<and>
         (\<forall>K. m < length (quad a i :: (int option \<times> ('s, 'v) event) list) \<and> fst ((quad a i :: (int option \<times> ('s, 'v) event) list) ! m) = Some K \<longrightarrow> (\<forall>j \<in> set js. j < K))"
  proof (elim disjE)
    assume "m = 4"
    then show ?thesis by (intro exI[of _ "[i]"]) (simp add: quad_def)
  qed (rule exI[of _ "[]"], simp add: quad_def begun_def)+
qed

lemma cut_shape_append:
  assumes x: "cut_shape a lo mid xs" and y: "cut_shape a mid hi ys"
    and le: "lo \<le> mid" "mid \<le> hi"
  shows "cut_shape a lo hi (xs @ ys)"
  unfolding cut_shape_def
proof (intro conjI ballI allI impI)
  fix e K assume "e \<in> set (xs @ ys)" "fst e = Some K"
  then show "lo \<le> K" "K < hi" using x y le unfolding cut_shape_def by fastforce+
next
  fix e assume "e \<in> set (xs @ ys)" "is_file (snd e)"
  then show "\<exists>j. fst e = Some j \<and> j mod checkpoint_rate a = 0"
    using x y unfolding cut_shape_def by auto
next
  fix m assume m: "m \<le> length (xs @ ys)"
  let ?goal = "\<exists>js. filter (\<lambda>e. is_file (snd e)) (take m (xs @ ys)) =
           concat (map (quad a) js) @ (if m < length (xs @ ys) then begun a ((xs @ ys) ! m) else []) \<and>
         (\<forall>j \<in> set js. lo \<le> j \<and> j < hi) \<and>
         (\<forall>K. m < length (xs @ ys) \<and> fst ((xs @ ys) ! m) = Some K \<longrightarrow> (\<forall>j \<in> set js. j < K))"
  from cut_shape_whole[OF x] obtain jx where
    jx: "filter (\<lambda>e. is_file (snd e)) xs = concat (map (quad a) jx)"
    and jxr: "\<forall>j \<in> set jx. lo \<le> j \<and> j < mid" by blast
  have ys_low: "mid \<le> K" if "k < length ys" "fst (ys ! k) = Some K" for k K
    using y that unfolding cut_shape_def by (metis nth_mem)
  consider "m < length xs" | "m = length xs" | "length xs < m" by linarith
  then show ?goal
  proof cases
    case 1
    with x obtain js where
      "filter (\<lambda>e. is_file (snd e)) (take m xs) =
           concat (map (quad a) js) @ (if m < length xs then begun a (xs ! m) else [])"
      "\<forall>j \<in> set js. lo \<le> j \<and> j < mid"
      "\<forall>K. m < length xs \<and> fst (xs ! m) = Some K \<longrightarrow> (\<forall>j \<in> set js. j < K)"
      unfolding cut_shape_def by (auto dest!: spec[of _ m])
    with 1 le show ?thesis by (intro exI[of _ js]) (auto simp: nth_append)
  next
    case 2
    have b: "ys \<noteq> [] \<Longrightarrow> begun a (ys ! 0) = []" using y by (rule cut_shape_first)
    show ?thesis
      using 2 jx jxr le b ys_low[of 0]
      by (intro exI[of _ jx]) (auto simp: nth_append)
  next
    case 3
    let ?m = "m - length xs"
    from 3 m have m': "?m \<le> length ys" by simp
    with y obtain js where
      js: "filter (\<lambda>e. is_file (snd e)) (take ?m ys) =
           concat (map (quad a) js) @ (if ?m < length ys then begun a (ys ! ?m) else [])"
      and jr: "\<forall>j \<in> set js. mid \<le> j \<and> j < hi"
      and jk: "\<forall>K. ?m < length ys \<and> fst (ys ! ?m) = Some K \<longrightarrow> (\<forall>j \<in> set js. j < K)"
      unfolding cut_shape_def by (auto dest!: spec[of _ ?m])
    have t: "take m (xs @ ys) = xs @ take ?m ys" using 3 by simp
    have n: "m < length (xs @ ys) \<Longrightarrow> (xs @ ys) ! m = ys ! ?m" using 3 by (simp add: nth_append)
    have lt: "(m < length (xs @ ys)) = (?m < length ys)" using 3 by auto
    show ?thesis
    proof (intro exI[of _ "jx @ js"] conjI)
      have "filter (\<lambda>e. is_file (snd e)) (take m (xs @ ys)) =
              concat (map (quad a) jx) @ filter (\<lambda>e. is_file (snd e)) (take ?m ys)"
        unfolding t by (simp add: jx)
      moreover have "(if m < length (xs @ ys) then begun a ((xs @ ys) ! m) else []) =
              (if ?m < length ys then begun a (ys ! ?m) else [])"
        using n unfolding lt by (cases "?m < length ys") simp_all
      ultimately show "filter (\<lambda>e. is_file (snd e)) (take m (xs @ ys)) =
           concat (map (quad a) (jx @ js)) @ (if m < length (xs @ ys) then begun a ((xs @ ys) ! m) else [])"
        by (simp only: js map_append concat_append append_assoc)
      show "\<forall>j \<in> set (jx @ js). lo \<le> j \<and> j < hi" using jxr jr le by auto
      show "\<forall>K. m < length (xs @ ys) \<and> fst ((xs @ ys) ! m) = Some K \<longrightarrow> (\<forall>j \<in> set (jx @ js). j < K)"
      proof (intro allI impI ballI)
        fix K j assume a1: "m < length (xs @ ys) \<and> fst ((xs @ ys) ! m) = Some K" and j: "j \<in> set (jx @ js)"
        then have k1: "?m < length ys" and k2: "fst (ys ! ?m) = Some K" using n lt by auto
        from ys_low[OF k1 k2] have "mid \<le> K" .
        moreover from jk k1 k2 have "\<forall>j \<in> set js. j < K" by blast
        ultimately show "j < K" using j jxr by auto
      qed
    qed
  qed
qed

lemma cut_shape_quiet_append:
  assumes q: "\<And>e. e \<in> set xs \<Longrightarrow> \<not> is_file (snd e)"
    and s: "\<And>e K. e \<in> set xs \<Longrightarrow> fst e = Some K \<Longrightarrow> lo \<le> K \<and> K < hi"
    and y: "cut_shape a lo hi ys"
  shows "cut_shape a lo hi (xs @ ys)"
  unfolding cut_shape_def
proof (intro conjI ballI allI impI)
  fix e K assume e: "e \<in> set (xs @ ys)" and k: "fst e = Some K"
  have "lo \<le> K \<and> K < hi"
  proof (cases "e \<in> set xs")
    case True
    then show ?thesis using k by (rule s)
  next
    case False
    with e have "e \<in> set ys" by simp
    with y k show ?thesis unfolding cut_shape_def by blast
  qed
  then show "lo \<le> K" "K < hi" by simp_all
next
  fix e assume e: "e \<in> set (xs @ ys)" and f: "is_file (snd e)"
  have "e \<notin> set xs" using q[of e] f by blast
  with e have "e \<in> set ys" by simp
  with y f show "\<exists>j. fst e = Some j \<and> j mod checkpoint_rate a = 0"
    unfolding cut_shape_def by blast
next
  fix m assume m: "m \<le> length (xs @ ys)"
  let ?goal = "\<exists>js. filter (\<lambda>e. is_file (snd e)) (take m (xs @ ys)) =
           concat (map (quad a) js) @ (if m < length (xs @ ys) then begun a ((xs @ ys) ! m) else []) \<and>
         (\<forall>j \<in> set js. lo \<le> j \<and> j < hi) \<and>
         (\<forall>K. m < length (xs @ ys) \<and> fst ((xs @ ys) ! m) = Some K \<longrightarrow> (\<forall>j \<in> set js. j < K))"
  have fx: "filter (\<lambda>e. is_file (snd e)) (take k xs) = []" for k
    using q by (auto simp: filter_empty_conv dest: in_set_takeD)
  consider "m < length xs" | "m = length xs" | "length xs < m" by linarith
  then show ?goal
  proof cases
    case 1
    then have "begun a (xs ! m) = []" using q by (intro begun_other) simp
    with 1 show ?thesis by (intro exI[of _ "[]"]) (simp add: fx nth_append)
  next
    case 2
    have b: "ys \<noteq> [] \<Longrightarrow> begun a (ys ! 0) = []" using y by (rule cut_shape_first)
    have "filter (\<lambda>e. is_file (snd e)) (take m (xs @ ys)) = []"
      using fx[of "length xs"] 2 by simp
    moreover have "(if m < length (xs @ ys) then begun a ((xs @ ys) ! m) else []) = []"
      using 2 b by (cases ys) (simp_all add: nth_append)
    ultimately show ?thesis by (intro exI[of _ "[]"]) simp
  next
    case 3
    let ?m = "m - length xs"
    from 3 m have m': "?m \<le> length ys" by simp
    with y obtain js where
      js: "filter (\<lambda>e. is_file (snd e)) (take ?m ys) =
           concat (map (quad a) js) @ (if ?m < length ys then begun a (ys ! ?m) else [])"
      and jr: "\<forall>j \<in> set js. lo \<le> j \<and> j < hi"
      and jk: "\<forall>K. ?m < length ys \<and> fst (ys ! ?m) = Some K \<longrightarrow> (\<forall>j \<in> set js. j < K)"
      unfolding cut_shape_def by (auto dest!: spec[of _ ?m])
    have t: "take m (xs @ ys) = xs @ take ?m ys" using 3 by simp
    have n: "m < length (xs @ ys) \<Longrightarrow> (xs @ ys) ! m = ys ! ?m" using 3 by (simp add: nth_append)
    have lt: "(m < length (xs @ ys)) = (?m < length ys)" using 3 by auto
    show ?thesis
    proof (intro exI[of _ js] conjI)
      have "filter (\<lambda>e. is_file (snd e)) (take m (xs @ ys)) =
              filter (\<lambda>e. is_file (snd e)) (take ?m ys)"
        unfolding t using fx[of "length xs"] by simp
      moreover have "(if m < length (xs @ ys) then begun a ((xs @ ys) ! m) else []) =
              (if ?m < length ys then begun a (ys ! ?m) else [])"
        using n unfolding lt by (cases "?m < length ys") simp_all
      ultimately show "filter (\<lambda>e. is_file (snd e)) (take m (xs @ ys)) =
           concat (map (quad a) js) @ (if m < length (xs @ ys) then begun a ((xs @ ys) ! m) else [])"
        by (simp only: js)
      show "\<forall>j \<in> set js. lo \<le> j \<and> j < hi" by (rule jr)
      show "\<forall>K. m < length (xs @ ys) \<and> fst ((xs @ ys) ! m) = Some K \<longrightarrow> (\<forall>j \<in> set js. j < K)"
      proof (intro allI impI)
        fix K assume a1: "m < length (xs @ ys) \<and> fst ((xs @ ys) ! m) = Some K"
        then have "?m < length ys \<and> fst (ys ! ?m) = Some K" using n lt by simp
        with jk show "\<forall>j \<in> set js. j < K" by blast
      qed
    qed
  qed
qed


text \<open>The calls of the loop have that shape.\<close>

lemma iteration_files:
  "filter (\<lambda>e. is_file (snd e)) (events_of (iteration_body a env None i l)) =
     (if iteration_ok a i l \<and> i mod checkpoint_rate a = 0 then quad a i else [])"
  using train_step_result[of a env i l]
  by (auto simp: iteration_body_def frame_simps iteration_ok_def py_mod_def evaluate_result
      checkpoint_result checkpoint_events evaluate_events train_step_events quad_def)

lemma iteration_files_last:
  "events_of (iteration_body a env None i l) =
     filter (\<lambda>e. \<not> is_file (snd e)) (events_of (iteration_body a env None i l)) @
     filter (\<lambda>e. is_file (snd e)) (events_of (iteration_body a env None i l))"
  using train_step_result[of a env i l]
  by (auto simp: iteration_body_def frame_simps iteration_ok_def py_mod_def evaluate_result
      checkpoint_result checkpoint_events evaluate_events train_step_events filter_map comp_def)

lemma iteration_shape: "cut_shape a i (i + 1) (events_of (iteration_body a env None i l))"
proof -
  let ?evs = "events_of (iteration_body a env None i l)"
  have y: "cut_shape a i (i + 1) (filter (\<lambda>e. is_file (snd e)) ?evs)"
    unfolding iteration_files
    by (auto intro: cut_shape_quad cut_shape_quiet)
  have "cut_shape a i (i + 1) (filter (\<lambda>e. \<not> is_file (snd e)) ?evs @ filter (\<lambda>e. is_file (snd e)) ?evs)"
  proof (rule cut_shape_quiet_append[OF _ _ y])
    fix e assume "e \<in> set (filter (\<lambda>e. \<not> is_file (snd e)) ?evs)"
    then show "\<not> is_file (snd e)" by simp
  next
    fix e K assume "e \<in> set (filter (\<lambda>e. \<not> is_file (snd e)) ?evs)" and k: "fst e = Some K"
    then have "e \<in> set ?evs" by simp
    from iteration_stamps[OF this] k show "i \<le> K \<and> K < i + 1" by simp
  qed
  with iteration_files_last[of a env i l] show ?thesis by simp
qed

lemma cut_shape_Nil: "lo \<le> hi \<Longrightarrow> cut_shape a lo hi []"
  by (rule cut_shape_quiet) simp_all

lemma for_range_shape: "cut_shape a i (i + int n) (events_of (for_range a env None i n l))"
proof (induction n arbitrary: i l)
  case 0
  show ?case by (simp add: for_range_0 cut_shape_Nil)
next
  case (Suc n)
  have it: "cut_shape a i (i + 1) (events_of (iteration_body a env None i l))"
    by (rule iteration_shape)
  show ?case
  proof (cases "result_of (iteration_body a env None i l)")
    case (Inl e)
    have "cut_shape a i (i + int (Suc n)) (events_of (iteration_body a env None i l) @ [])"
      by (rule cut_shape_append[OF it cut_shape_Nil]) simp_all
    with Inl show ?thesis by (simp add: for_range_Suc_events)
  next
    case (Inr l1)
    have eq: "i + 1 + int n = i + int (Suc n)" by simp
    have r: "cut_shape a (i + 1) (i + int (Suc n)) (events_of (for_range a env None (i + 1) n l1))"
      using Suc.IH[of "i + 1" l1] unfolding eq .
    have "cut_shape a i (i + int (Suc n)) (events_of (iteration_body a env None i l) @
                      events_of (for_range a env None (i + 1) n l1))"
      by (rule cut_shape_append[OF it r]) simp_all
    with Inr show ?thesis by (simp add: for_range_Suc_events)
  qed
qed

lemma init_events_files:
  "e \<in> set (init_events a env) \<Longrightarrow> fst e = None \<and> \<not> is_file (snd e)"
  by (auto simp: init_events_def load_events_def wandb_events_def split: option.splits if_splits)

lemma try_events_shape:
  fixes env :: "('p, 'o, 's, 'v) env"
  shows "cut_shape a 1 (1 + int (nat (iterations a))) (try_events a env)"
proof -
  let ?hi = "1 + int (nat (iterations a))"
  have l: "cut_shape a 1 ?hi (loop_events a env)"
    unfolding loop_events_def by (rule for_range_shape)
  have t: "cut_shape a ?hi ?hi (tail_events a env)"
    by (rule cut_shape_quiet) (auto dest: tail_events_stamps)
  have lt: "cut_shape a 1 ?hi (loop_events a env @ tail_events a env)"
    by (rule cut_shape_append[OF l t]) simp_all
  have n: "cut_shape a 1 ?hi ([] :: (int option \<times> ('s, 'v) event) list)"
    by (rule cut_shape_Nil) simp
  have "cut_shape a 1 ?hi (init_events a env @
          (if init_fails a then [] else loop_events a env @ tail_events a env))"
  proof (rule cut_shape_quiet_append)
    fix e assume "e \<in> set (init_events a env)"
    then show "\<not> is_file (snd e)" by (simp add: init_events_files)
  next
    fix e K assume "e \<in> set (init_events a env)" "fst e = Some K"
    then show "1 \<le> K \<and> K < ?hi" by (simp add: init_events_files)
  next
    show "cut_shape a 1 ?hi (if init_fails a then [] else loop_events a env @ tail_events a env)"
      using lt n by simp
  qed
  then show ?thesis by (simp add: try_events_split)
qed

text \<open>The files of a whole run.\<close>

lemma main_projection:
  assumes "\<not> P (Mkdir (log_dir a))" and "\<not> P (Print InterruptNotice)" and "\<not> P WandbFinish"
  shows "filter (\<lambda>e. P (snd e)) (trace (snd (main a env f))) =
     filter (\<lambda>e. P (snd e))
       (case f of None \<Rightarrow> try_events a env | Some (k, e) \<Rightarrow> take k (try_events a env))"
proof (cases f)
  case None
  with assms show ?thesis by (simp add: main_None_trace final_events_def)
next
  case (Some ke)
  obtain k e where ke: "ke = (k, e)" by (cases ke)
  show ?thesis
  proof (cases "k < length (try_events a env)")
    case True
    with assms show ?thesis unfolding Some ke
      by (cases e) (auto simp: main_fault handler_def cleanup_def emit_def)
  next
    case False
    with assms show ?thesis unfolding Some ke
      by (simp add: main_fault main_None_trace final_events_def)
  qed
qed

lemma strikes_iff:
  "strikes a env f j ev =
     (\<exists>k e. f = Some (k, e) \<and> k < length (try_events a env) \<and> try_events a env ! k = (Some j, ev))"
proof (cases f)
  case None
  then show ?thesis by (simp add: strikes_def)
next
  case (Some ke)
  obtain k e where ke: "ke = (k, e)" by (cases ke)
  show ?thesis unfolding Some ke
    by (auto simp: strikes_def main_None_trace nth_append final_events_def)
qed

lemma run_files:
  fixes env :: "('p, 'o, 's, 'v) env"
  shows "\<exists>js. filter (\<lambda>e. is_file (snd e)) (trace (snd (main a env f))) =
            concat (map (quad a) js) @ leftover a env f \<and>
          (\<forall>j \<in> set js. \<forall>ev. \<not> strikes a env f j ev)"
proof -
  let ?evs = "try_events a env"
  let ?m = "case f of None \<Rightarrow> length ?evs | Some (k, e) \<Rightarrow> min k (length ?evs)"
  have m: "?m \<le> length ?evs" by (simp split: option.splits)
  have tk: "(case f of None \<Rightarrow> ?evs | Some (k, e) \<Rightarrow> take k ?evs) = take ?m ?evs"
    by (simp split: option.splits add: min_def)
  have lo: "leftover a env f = (if ?m < length ?evs then begun a (?evs ! ?m) else [])"
    by (simp add: leftover_def split: option.splits)
  from try_events_shape[of a env] m obtain js where
    js: "filter (\<lambda>e. is_file (snd e)) (take ?m ?evs) =
           concat (map (quad a) js) @ (if ?m < length ?evs then begun a (?evs ! ?m) else [])"
    and jk: "\<forall>K. ?m < length ?evs \<and> fst (?evs ! ?m) = Some K \<longrightarrow> (\<forall>j \<in> set js. j < K)"
    unfolding cut_shape_def by (auto dest!: spec[of _ ?m])
  have "filter (\<lambda>e. is_file (snd e)) (trace (snd (main a env f))) =
          filter (\<lambda>e. is_file (snd e)) (take ?m ?evs)"
    unfolding tk[symmetric] by (rule main_projection) simp_all
  then have 1: "filter (\<lambda>e. is_file (snd e)) (trace (snd (main a env f))) =
            concat (map (quad a) js) @ leftover a env f"
    unfolding lo js .
  have 2: "\<forall>j \<in> set js. \<forall>ev. \<not> strikes a env f j ev"
  proof (intro ballI allI notI)
    fix j ev assume j: "j \<in> set js" and "strikes a env f j ev"
    then obtain k e where f: "f = Some (k, e)" and k: "k < length ?evs"
      and ev: "?evs ! k = (Some j, ev)" unfolding strikes_iff by blast
    from f k have "?m = k" by simp
    with jk k ev have "\<forall>j' \<in> set js. j' < j" by simp
    with j show False by auto
  qed
  from 1 2 show ?thesis by blast
qed

lemma disk_main:
  fixes env :: "('p, 'o, 's, 'v) env"
  shows "\<exists>js. disk (snd (main a env f)) =
            foldl write_file (add_pairs a js Map.empty) (map snd (leftover a env f)) \<and>
          length (filter is_save (calls (snd (main a env f)))) =
            2 * length js + length (filter (\<lambda>e. is_save (snd e)) (leftover a env f)) \<and>
          (\<forall>j \<in> set js. \<forall>ev. \<not> strikes a env f j ev)"
proof -
  from run_files[of a env f] obtain js where
    1: "filter (\<lambda>e. is_file (snd e)) (trace (snd (main a env f))) =
            concat (map (quad a) js) @ leftover a env f"
    and 2: "\<forall>j \<in> set js. \<forall>ev. \<not> strikes a env f j ev" by blast
  have "disk (snd (main a env f)) =
          foldl write_file Map.empty (map snd (filter (\<lambda>e. is_file (snd e)) (trace (snd (main a env f)))))"
    unfolding disk_def calls_def by (rule disk_filter)
  then have d: "disk (snd (main a env f)) =
            foldl write_file (add_pairs a js Map.empty) (map snd (leftover a env f))"
    unfolding 1 by (simp add: disk_quads)
  have sf: "filter (\<lambda>e. is_save (snd e)) xs =
            filter (\<lambda>e. is_save (snd e)) (filter (\<lambda>e. is_file (snd e)) xs)"
    for xs :: "(int option \<times> ('s, 'v) event) list"
  proof -
    have "is_save ev \<Longrightarrow> is_file ev" for ev :: "('s, 'v) event" by (cases ev) simp_all
    then show ?thesis by (auto simp: filter_filter intro!: filter_cong)
  qed
  have "length (filter is_save (calls (snd (main a env f)))) =
          length (filter (\<lambda>e. is_save (snd e)) (trace (snd (main a env f))))"
    by (rule length_saves)
  also have "\<dots> = length (filter (\<lambda>e. is_save (snd e))
                        (concat (map (quad a) js) @ leftover a env f))"
    by (subst sf) (simp only: 1)
  also have "\<dots> = 2 * length js + length (filter (\<lambda>e. is_save (snd e)) (leftover a env f))"
    by (simp add: saves_quads)
  finally show ?thesis using d 2 by blast
qed

lemma leftover_struck:
  assumes "strikes a env f j ev"
  shows "leftover a env f = begun a (Some j, ev)"
proof -
  from assms obtain k e where "f = Some (k, e)" "k < length (try_events a env)"
    "try_events a env ! k = (Some j, ev)" unfolding strikes_iff by blast
  then show ?thesis by (simp add: leftover_def)
qed

lemma leftover_none:
  assumes "\<And>i. \<not> strikes a env f i (TorchSave ModelState (model_filename a i))"
    and "\<And>i. \<not> strikes a env f i (CreateFile (optim_filename a i))"
    and "\<And>i. \<not> strikes a env f i (TorchSave OptimState (optim_filename a i))"
  shows "leftover a env f = []"
proof (cases f)
  case None
  then show ?thesis by (simp add: leftover_def)
next
  case (Some ke)
  obtain k e where ke: "ke = (k, e)" by (cases ke)
  show ?thesis
  proof (cases "k < length (try_events a env)")
    case False
    then show ?thesis by (simp add: leftover_def Some ke)
  next
    case True
    obtain st ev where s: "try_events a env ! k = (st, ev)" by (cases "try_events a env ! k")
    have "begun a (st, ev) = []"
    proof (cases st)
      case None
      then show ?thesis by (simp add: begun_def)
    next
      case (Some i)
      have "strikes a env f i ev" unfolding strikes_iff using True s Some \<open>f = Some ke\<close> ke by simp
      with assms[of i] show ?thesis unfolding begun_def Some by auto
    qed
    with True s show ?thesis by (simp add: leftover_def Some ke)
  qed
qed

lemma struck_file:
  fixes env :: "('p, 'o, 's, 'v) env"
  assumes "strikes a env f j ev" and "is_file ev"
  shows "j mod checkpoint_rate a = 0"
proof -
  from assms obtain k e where "k < length (try_events a env)"
    "try_events a env ! k = (Some j, ev)" unfolding strikes_iff by blast
  then have "(Some j, ev) \<in> set (try_events a env)" by (metis nth_mem)
  with try_events_shape[of a env] assms(2) show ?thesis
    unfolding cut_shape_def by fastforce
qed


lemma leftover_disk:
  "foldl write_file d (map snd (take 1 (quad a j :: (int option \<times> ('s, 'v) event) list))) =
     d(model_filename a j \<mapsto> Partial)"
  "foldl write_file d (map snd (take 2 (quad a j :: (int option \<times> ('s, 'v) event) list))) =
     d(model_filename a j \<mapsto> Complete)"
  "foldl write_file d (map snd (take 3 (quad a j :: (int option \<times> ('s, 'v) event) list))) =
     d(model_filename a j \<mapsto> Complete, optim_filename a j \<mapsto> Partial)"
  by (simp_all add: quad_def)

lemma leftover_saves:
  "length (filter (\<lambda>e. is_save (snd e)) (take 1 (quad a j :: (int option \<times> ('s, 'v) event) list))) = 0"
  "length (filter (\<lambda>e. is_save (snd e)) (take 2 (quad a j :: (int option \<times> ('s, 'v) event) list))) = 1"
  "length (filter (\<lambda>e. is_save (snd e)) (take 3 (quad a j :: (int option \<times> ('s, 'v) event) list))) = 1"
  by (simp_all add: quad_def)

lemma begun_struck:
  "begun a (Some j, TorchSave ModelState (model_filename a j)) = take 1 (quad a j)"
  "begun a (Some j, CreateFile (optim_filename a j)) = take 2 (quad a j)"
  "begun a (Some j, TorchSave OptimState (optim_filename a j)) = take 3 (quad a j)"
  by (simp_all add: begun_def)

lemma paired_add_pairs: "paired a (add_pairs a js Map.empty) i"
  by (simp add: paired_def)

text \<open>Running the model on numerals.\<close>

lemma for_range_numeral:
  "for_range a env flt first (numeral k) l =
     then_do (iteration_body a env flt first l)
       (\<lambda>l'. for_range a env flt (first + 1) (pred_numeral k) l')"
  by (simp add: numeral_eq_Suc for_range.simps)

lemma str_nat_numeral:
  "str_nat (numeral k) =
     (if (numeral k :: nat) < 10 then [digit_char (numeral k)]
      else str_nat (numeral k div 10) @ [digit_char (numeral k mod 10)])"
  by (rule str_nat.simps)

lemma str_nat_small: "str_nat 0 = ''0''" "str_nat (Suc 0) = ''1''"
  by (simp_all add: str_nat.simps digit_char_def)

lemma full_batches_Nil: "full_batches n [] = []"
  by (auto simp: full_batches.simps)

lemma full_batches_Cons:
  "full_batches n (x # xs) =
     (if n = 0 \<or> length (x # xs) < n then []
      else take n (x # xs) # full_batches n (drop n (x # xs)))"
  by (rule full_batches.simps)

lemmas run_defs = str_nat_numeral str_nat_small full_batches_Nil full_batches_Cons main_def try_body_def initialize_def train_step_def evaluate_def
  torch_save_def checkpoint_def iteration_body_def for_range.simps for_range_numeral wandb_init_def
  finish_runner_def start_def handler_def cleanup_def emit_def calls_def
  then_do_def call_def fault_at_def returns_def raises_def of_result_def
  py_mod_def py_truediv_def new_data_loader_def loader_len_def loader_batches_def
  model_filename_def optim_filename_def str_int_def str_opt_def digit_char_def
  demo_args_def demo_env_def Let_def


section \<open>The claims\<close>

text \<open>
  C1 (as amended). When logging is requested and no project name is given, the \<^verbatim>\<open>try\<close> block
  raises the configuration error (\<^verbatim>\<open>ValueError\<close>) and the run ends in failure. The check comes
  after the model and the optimizer are constructed and after the requested checkpoints are
  loaded; it comes before any logging session is opened, before any dataset or loader is
  built and before any iteration: the calls of the whole run are \<^verbatim>\<open>mkdir\<close>, the two
  constructions and the loads.
\<close>

theorem config_error_after_construction:
  assumes "log_to_wandb a" and "project_name a = None"
  shows "fst (try_body a env None (start a)) = Inl ValueError \<and>
         isl (fst (main a env None)) \<and>
         calls (snd (main a env None)) =
           Mkdir (log_dir a) # GetDiffusion # NewAdam #
             (case model_checkpoint a of None \<Rightarrow> [] | Some path \<Rightarrow> [LoadModel path]) @
             (case optim_checkpoint a of None \<Rightarrow> [] | Some path \<Rightarrow> [LoadOptim path])"
  using assms
  by (simp add: try_body_None main_None try_result_def init_fails_def cleanup_def opened_def
      calls_def try_events_no_project load_events_def split: option.splits)

theorem config_error_after_construction_witness:
  "log_to_wandb (demo_args\<lparr>log_to_wandb := True, project_name := None\<rparr>) \<and>
   project_name (demo_args\<lparr>log_to_wandb := True, project_name := None\<rparr>) = None \<and>
   fst (try_body (demo_args\<lparr>log_to_wandb := True, project_name := None\<rparr>) demo_env None
          (start (demo_args\<lparr>log_to_wandb := True, project_name := None\<rparr>))) = Inl ValueError \<and>
   calls (snd (main (demo_args\<lparr>log_to_wandb := True, project_name := None\<rparr>) demo_env None)) =
     [Mkdir ''ckpt'', GetDiffusion, NewAdam]"
  using config_error_after_construction
          [of "demo_args\<lparr>log_to_wandb := True, project_name := None\<rparr>" demo_env]
  by (simp add: demo_args_def)

theorem config_error_counterexample:
  "\<not> (fst (main (demo_args\<lparr>log_to_wandb := True, project_name := None\<rparr>) demo_env None)
         = Inl ValueError \<and>
       GetDiffusion \<notin> set (calls (snd (main (demo_args\<lparr>log_to_wandb := True, project_name := None\<rparr>)
                                          demo_env None))) \<and>
       NewAdam \<notin> set (calls (snd (main (demo_args\<lparr>log_to_wandb := True, project_name := None\<rparr>)
                                     demo_env None))))"
  by (simp add: main_def try_body_def initialize_def then_do_def call_def fault_at_def
      raises_def returns_def start_def emit_def handler_def cleanup_def calls_def demo_args_def)

text \<open>
  C9. With logging requested, whenever control leaves the \<^verbatim>\<open>try\<close> block while \<open>wandb_runner\<close> is
  still unbound, the \<^verbatim>\<open>finally\<close> block raises \<^verbatim>\<open>UnboundLocalError\<close>, whatever exception was
  pending. This is the case on every run without a project name (for every fault), and when
  an interrupt strikes the construction of the model or of the optimizer.
\<close>

theorem cleanup_fails_on_unbound_runner:
  fixes env :: "('p, 'o, 's, 'v) env"
  assumes "log_to_wandb a"
  shows "(wandb_runner (snd (try_body a env f (start a))) = None
            \<longrightarrow> fst (main a env f) = Inl UnboundLocalError) \<and>
         (project_name a = None \<longrightarrow> fst (main a env f) = Inl UnboundLocalError) \<and>
         (k < 2 \<longrightarrow> fst (main a env (Some (k, KeyboardInterrupt))) = Inl UnboundLocalError)"
proof (intro conjI impI)
  assume "wandb_runner (snd (try_body a env f (start a))) = None"
  then show "fst (main a env f) = Inl UnboundLocalError"
    using assms
    by (cases "try_body a env f (start a)")
       (auto simp: main_def cleanup_def handler_def emit_def split: sum.splits exn.splits)
next
  assume np: "project_name a = None"
  have ev: "try_events a env = (None, GetDiffusion) # (None, NewAdam) # load_events a env"
    using assms np by (rule try_events_no_project)
  show "fst (main a env f) = Inl UnboundLocalError"
  proof (cases f)
    case None
    then show ?thesis using assms np by (simp add: main_None cleanup_def opened_def)
  next
    case (Some ke)
    obtain k' e where ke: "ke = (k', e)" by (cases ke)
    have "\<not> list_ex is_init (map snd (load_events a env))"
      by (rule load_events_no_init)
    then have "\<not> list_ex is_init (map snd (try_events a env))"
      by (simp add: ev)
    then have ni: "\<not> list_ex is_init (map snd (take k' (try_events a env)))"
      using list_ex_take[of is_init k' "map snd (try_events a env)"]
      by (auto simp: take_map)
    show ?thesis
      using assms np ni unfolding Some ke main_fault
      by (cases e)
         (simp_all add: main_None cleanup_def opened_def handler_def emit_def)
  qed
next
  assume k: "k < 2"
  obtain rest where tr: "try_events a env = (None, GetDiffusion) # (None, NewAdam) # rest"
    by (simp add: try_events_def init_events_def)
  have len: "k < length (try_events a env)"
    using k by (simp add: tr)
  have "k = 0 \<or> k = 1" using k by auto
  then have ni: "\<not> list_ex is_init (map snd (take k (try_events a env)))"
    by (auto simp: tr)
  show "fst (main a env (Some (k, KeyboardInterrupt))) = Inl UnboundLocalError"
    using assms k len ni
    by (simp add: main_fault handler_def cleanup_def emit_def)
qed

theorem cleanup_fails_on_unbound_runner_witness:
  "log_to_wandb (demo_args\<lparr>log_to_wandb := True\<rparr>) \<and>
   wandb_runner (snd (try_body (demo_args\<lparr>log_to_wandb := True\<rparr>) demo_env
      (Some (0, KeyboardInterrupt)) (start (demo_args\<lparr>log_to_wandb := True\<rparr>)))) = None \<and>
   (0 :: nat) < 2 \<and>
   fst (main (demo_args\<lparr>log_to_wandb := True\<rparr>) demo_env (Some (0, KeyboardInterrupt)))
     = Inl UnboundLocalError"
  using cleanup_fails_on_unbound_runner
          [of "demo_args\<lparr>log_to_wandb := True\<rparr>" demo_env "Some (0, KeyboardInterrupt)" 0]
  by (simp add: demo_args_def try_body_def initialize_def then_do_def call_def fault_at_def
      start_def emit_def)

text \<open>
  C2. On every run, with or without a fault in the \<^verbatim>\<open>try\<close> block (an interrupt or any other
  exception, at any call): \<^verbatim>\<open>wandb.init\<close> is called at most once; if it was called, the last call
  of the run is the \<^verbatim>\<open>finish\<close> of the cleanup, after the \<^verbatim>\<open>init\<close>; and when logging is enabled
  and the \<^verbatim>\<open>try\<close> block completes normally, \<^verbatim>\<open>finish\<close> is called exactly twice, at the end of the
  block and again in the cleanup.
\<close>

theorem session_closed_on_every_exit:
  "length (filter is_init (calls (snd (main a env f)))) \<le> 1 \<and>
   (list_ex is_init (calls (snd (main a env f))) \<longrightarrow>
      (\<exists>pre. calls (snd (main a env f)) = pre @ [WandbFinish] \<and> list_ex is_init pre)) \<and>
   (log_to_wandb a \<and> fst (try_body a env f (start a)) = Inr () \<longrightarrow>
      (\<exists>pre. calls (snd (main a env f)) = pre @ [WandbFinish, WandbFinish] \<and>
             WandbFinish \<notin> set pre))"
proof (intro conjI impI)
  show "length (filter is_init (calls (snd (main a env f)))) \<le> 1"
  proof (cases f)
    case None
    have "filter is_init (calls (snd (main a env None))) =
            map snd (filter (\<lambda>e. is_init (snd e)) (try_events a env))"
      by (simp add: calls_def main_None_trace final_events_def filter_map_snd)
    with try_events_once[of a env] None show ?thesis by simp
  next
    case (Some ke)
    obtain k e where ke: "ke = (k, e)" by (cases ke)
    show ?thesis
    proof (cases "k < length (try_events a env)")
      case False
      have "filter is_init (calls (snd (main a env None))) =
              map snd (filter (\<lambda>e. is_init (snd e)) (try_events a env))"
        by (simp add: calls_def main_None_trace final_events_def filter_map_snd)
      with try_events_once[of a env] False Some ke show ?thesis by (simp add: main_fault)
    next
      case True
      have "filter is_init (calls (snd (main a env (Some (k, e))))) =
              map snd (filter (\<lambda>e. is_init (snd e)) (take k (try_events a env)))"
        using True
        by (cases e)
           (auto simp: main_fault handler_def cleanup_def emit_def calls_def filter_map_snd)
      moreover have "length (filter (\<lambda>e. is_init (snd e)) (take k (try_events a env))) \<le> 1"
        using filter_take_le[of "\<lambda>e. is_init (snd e)" k "try_events a env"]
          try_events_once[of a env] by simp
      ultimately show ?thesis using Some ke by simp
    qed
  qed
next
  assume op: "list_ex is_init (calls (snd (main a env f)))"
  have none: "\<exists>pre. calls (snd (main a env None)) = pre @ [WandbFinish] \<and> list_ex is_init pre"
    if "list_ex is_init (calls (snd (main a env None)))"
  proof -
    from that have "opened a"
      by (auto simp: calls_def main_None_trace final_events_def list_ex_map_snd try_events_opened
          split: if_splits)
    then have "calls (snd (main a env None)) =
                 (Mkdir (log_dir a) # map snd (try_events a env)) @ [WandbFinish]"
      and "list_ex is_init (Mkdir (log_dir a) # map snd (try_events a env))"
      by (simp_all add: calls_def main_None_trace final_events_def list_ex_map_snd try_events_opened)
    then show ?thesis by blast
  qed
  show "\<exists>pre. calls (snd (main a env f)) = pre @ [WandbFinish] \<and> list_ex is_init pre"
  proof (cases f)
    case None
    with op none show ?thesis by simp
  next
    case (Some ke)
    obtain k e where ke: "ke = (k, e)" by (cases ke)
    show ?thesis
    proof (cases "k < length (try_events a env)")
      case False
      with op none Some ke show ?thesis by (simp add: main_fault)
    next
      case True
      let ?cut = "take k (try_events a env)"
      have cut: "list_ex (\<lambda>e. is_init (snd e)) ?cut"
        using op True unfolding Some ke
        by (cases e)
           (auto simp: main_fault handler_def cleanup_def emit_def calls_def list_ex_map_snd
              split: if_splits)
      then have "list_ex (\<lambda>e. is_init (snd e)) (try_events a env)"
        by (rule list_ex_take)
      then have lg: "log_to_wandb a"
        by (simp add: try_events_opened opened_log)
      let ?pre = "Mkdir (log_dir a) # map snd ?cut
                    @ (if e = KeyboardInterrupt then [Print InterruptNotice] else [])"
      have "calls (snd (main a env (Some (k, e)))) = ?pre @ [WandbFinish]"
        using True cut lg
        by (cases e)
           (auto simp: main_fault handler_def cleanup_def emit_def calls_def list_ex_map_snd)
      moreover have "list_ex is_init ?pre"
        using cut by (simp add: list_ex_map_snd)
      ultimately show ?thesis unfolding Some ke by blast
    qed
  qed
next
  assume "log_to_wandb a \<and> fst (try_body a env f (start a)) = Inr ()"
  then have lg: "log_to_wandb a" and ok: "fst (try_body a env f (start a)) = Inr ()" by simp_all
  have same: "main a env f = main a env None \<and> try_result a env = Inr ()"
  proof (cases f)
    case None
    with ok show ?thesis by (simp add: try_body_None)
  next
    case (Some ke)
    obtain k e where ke: "ke = (k, e)" by (cases ke)
    from ok have "\<not> k < length (try_events a env)"
      unfolding Some ke by (auto simp: try_body_fault split: if_splits)
    with ok show ?thesis unfolding Some ke by (simp add: main_fault try_body_fault)
  qed
  then have tr: "try_result a env = Inr ()" by simp
  have ev: "try_events a env = init_events a env @ loop_events a env @ [(None, WandbFinish)]"
    using lg tr by (rule try_events_finish)
  have op: "opened a" using lg tr by (rule try_result_opened)
  let ?pre = "Mkdir (log_dir a) # map snd (init_events a env @ loop_events a env)"
  have "calls (snd (main a env None)) = ?pre @ [WandbFinish, WandbFinish]"
    using op by (simp add: calls_def main_None_trace final_events_def ev)
  moreover have "WandbFinish \<notin> set ?pre"
    by (auto dest: init_events_stamps loop_events_stamps)
  ultimately show "\<exists>pre. calls (snd (main a env f)) = pre @ [WandbFinish, WandbFinish] \<and>
             WandbFinish \<notin> set pre"
    using same by auto
qed

theorem session_closed_on_every_exit_witness:
  "list_ex is_init (calls (snd (main (demo_args\<lparr>log_to_wandb := True\<rparr>) demo_env None))) \<and>
   log_to_wandb (demo_args\<lparr>log_to_wandb := True\<rparr>) \<and>
   fst (try_body (demo_args\<lparr>log_to_wandb := True\<rparr>) demo_env None
          (start (demo_args\<lparr>log_to_wandb := True\<rparr>))) = Inr () \<and>
   length (filter is_init (calls (snd (main (demo_args\<lparr>log_to_wandb := True\<rparr>) demo_env None))))
     \<le> 1 \<and>
   (\<exists>pre. calls (snd (main (demo_args\<lparr>log_to_wandb := True\<rparr>) demo_env None))
            = pre @ [WandbFinish, WandbFinish] \<and> WandbFinish \<notin> set pre)"
  using session_closed_on_every_exit
          [where a = "demo_args\<lparr>log_to_wandb := True\<rparr>" and env = demo_env and f = None]
  by (simp add: run_defs)

text \<open>
  C3. When a \<^verbatim>\<open>KeyboardInterrupt\<close> strikes a call made inside the loop body (the call number
  \<open>k\<close> of the \<^verbatim>\<open>try\<close> block is stamped with an iteration: training, evaluation or checkpoint), the
  run makes the calls of the undisturbed run up to that one, then prints the notice, then
  closes the session if logging is enabled, and nothing else: no further iteration. \<^verbatim>\<open>main\<close>
  returns normally, so the interrupt does not reach the caller.
\<close>

theorem interrupt_in_loop_is_consumed:
  assumes k: "Suc k < length (trace (snd (main a env None)))"
    and s: "fst (trace (snd (main a env None)) ! Suc k) = Some K"
  shows "fst (main a env (Some (k, KeyboardInterrupt))) = Inr () \<and>
         trace (snd (main a env (Some (k, KeyboardInterrupt)))) =
           take (Suc k) (trace (snd (main a env None)))
             @ (None, Print InterruptNotice)
             # (if log_to_wandb a then [(None, WandbFinish)] else [])"
proof -
  have kt: "k < length (try_events a env)"
  proof (rule ccontr)
    assume "\<not> k < length (try_events a env)"
    with k have "k = length (try_events a env)" and "opened a"
      by (auto simp: main_None_trace final_events_def split: if_splits)
    then have "trace (snd (main a env None)) ! Suc k = (None, WandbFinish)"
      by (simp add: main_None_trace final_events_def nth_append)
    with s show False by simp
  qed
  then have nth: "trace (snd (main a env None)) ! Suc k = try_events a env ! k"
    by (simp add: main_None_trace nth_append)
  from stamped_in_loop[OF kt] s nth
  have nf: "\<not> init_fails a" and ik: "length (init_events a env) \<le> k" by simp_all
  have op: "list_ex (\<lambda>e. is_init (snd e)) (take k (try_events a env)) = opened a"
    using nf ik by (rule take_try_events)
  have lo: "log_to_wandb a \<Longrightarrow> opened a"
    using nf by (simp add: log_opened)
  have tk: "take (Suc k) (trace (snd (main a env None))) =
              (None, Mkdir (log_dir a)) # take k (try_events a env)"
    using kt by (simp add: main_None_trace)
  show ?thesis
    unfolding tk using kt op lo
    by (auto simp: main_fault handler_interrupt cleanup_def emit_def list_ex_map_snd)
qed

theorem interrupt_in_loop_is_consumed_witness:
  "Suc 6 < length (trace (snd (main demo_args demo_env None))) \<and>
   fst (trace (snd (main demo_args demo_env None)) ! Suc 6) = Some 1 \<and>
   fst (main demo_args demo_env (Some (6, KeyboardInterrupt))) = Inr () \<and>
   calls (snd (main demo_args demo_env (Some (6, KeyboardInterrupt)))) =
     [Mkdir ''ckpt'', GetDiffusion, NewAdam, NewDataset True, NewDataset False,
      NewDataLoader True, NewDataLoader False, Print InterruptNotice]"
  using interrupt_in_loop_is_consumed [where k = 6 and a = demo_args and env = demo_env and K = 1]
  by (simp add: run_defs)

text \<open>
  C4. In a run that completes without fault, with evaluation cadence \<open>L \<ge> 1\<close> and budget
  \<open>N \<ge> L\<close>: the calls of the evaluation pass (\<^verbatim>\<open>eval()\<close> and the forward passes without
  gradient) are, in order, one block per iteration divisible by \<open>L\<close> among \<open>1..N\<close>, each block
  being \<^verbatim>\<open>eval()\<close> followed by one forward pass on every batch of the held-out loader, in the
  loader's order; and there are \<open>N div L\<close> such iterations.
\<close>

theorem evaluation_cadence:
  assumes fin: "fst (main a env None) = Inr ()"
    and L: "1 \<le> log_rate a" and N: "log_rate a \<le> iterations a"
  shows "filter (\<lambda>e. is_test_pass (snd e)) (trace (snd (main a env None))) =
           concat (map (\<lambda>j. (Some j, SetEval) #
                          map (\<lambda>b. (Some j, Forward False b))
                            (full_batches (nat (batch_size a)) (test_dataset env)))
                    (filter (\<lambda>j. j mod log_rate a = 0) [1..iterations a])) \<and>
         int (length (filter (\<lambda>j. j mod log_rate a = 0) [1..iterations a]))
           = iterations a div log_rate a"
proof -
  from completed_run[OF fin] obtain l where l: "loop_result a env = Inr l"
    and tr: "trace (snd (main a env None)) =
           (None, Mkdir (log_dir a)) # init_events a env @ loop_events a env
             @ tail_events a env @ final_events a env"
    by blast
  have N0: "0 \<le> iterations a" using L N by simp
  have L0: "log_rate a \<noteq> 0" using L by simp
  have "filter (\<lambda>e. is_test_pass (snd e)) (trace (snd (main a env None))) =
          filter (\<lambda>e. is_test_pass (snd e)) (loop_events a env)"
    by (simp add: tr init_events_quiet tail_events_quiet final_events_quiet)
  then show ?thesis
    using loop_test_pass[OF l N0] multiples_upto[OF L N0] L0 by simp
qed

theorem evaluation_cadence_witness:
  "fst (main demo_args demo_env None) = Inr () \<and>
   1 \<le> log_rate demo_args \<and> log_rate demo_args \<le> iterations demo_args \<and>
   filter (\<lambda>e. is_test_pass (snd e)) (trace (snd (main demo_args demo_env None))) =
     [(Some 2, SetEval), (Some 2, Forward False [0, 1]), (Some 2, Forward False [2, 3])] \<and>
   iterations demo_args div log_rate demo_args = 1"
  using evaluation_cadence [where a = demo_args and env = demo_env]
  by (simp add: run_defs)

text \<open>
  C5. In a run that completes without fault, with checkpoint cadence \<open>C \<ge> 1\<close> and budget
  \<open>N \<ge> C\<close>: the \<^verbatim>\<open>torch.save\<close> calls are, in order, one pair per iteration \<open>j\<close> divisible by \<open>C\<close>
  among \<open>1..N\<close>: the model state to \<^verbatim>\<open>{log_dir}/{project}-{run}-iteration-{j}-model.pth\<close>, then
  the optimizer state to \<^verbatim>\<open>...-optim.pth\<close>; and there are \<open>N div C\<close> such iterations.
\<close>

theorem checkpoint_cadence:
  assumes fin: "fst (main a env None) = Inr ()"
    and C: "1 \<le> checkpoint_rate a" and N: "checkpoint_rate a \<le> iterations a"
  shows "filter (\<lambda>e. is_save (snd e)) (trace (snd (main a env None))) =
           concat (map (\<lambda>j.
               [(Some j, TorchSave ModelState
                   (log_dir a @ ''/'' @ str_opt (project_name a) @ ''-'' @ run_name a
                      @ ''-iteration-'' @ str_int j @ ''-model.pth'')),
                (Some j, TorchSave OptimState
                   (log_dir a @ ''/'' @ str_opt (project_name a) @ ''-'' @ run_name a
                      @ ''-iteration-'' @ str_int j @ ''-optim.pth''))])
             (filter (\<lambda>j. j mod checkpoint_rate a = 0) [1..iterations a])) \<and>
         int (length (filter (\<lambda>j. j mod checkpoint_rate a = 0) [1..iterations a]))
           = iterations a div checkpoint_rate a"
proof -
  from completed_run[OF fin] obtain l where l: "loop_result a env = Inr l"
    and tr: "trace (snd (main a env None)) =
           (None, Mkdir (log_dir a)) # init_events a env @ loop_events a env
             @ tail_events a env @ final_events a env"
    by blast
  have N0: "0 \<le> iterations a" using C N by simp
  have "filter (\<lambda>e. is_save (snd e)) (trace (snd (main a env None))) =
          filter (\<lambda>e. is_save (snd e)) (loop_events a env)"
    by (simp add: tr init_events_quiet tail_events_quiet final_events_quiet)
  then show ?thesis
    using loop_saves[OF l N0] multiples_upto[OF C N0]
    by (simp add: model_filename_def optim_filename_def)
qed

theorem checkpoint_cadence_witness:
  "fst (main demo_args demo_env None) = Inr () \<and>
   1 \<le> checkpoint_rate demo_args \<and> checkpoint_rate demo_args \<le> iterations demo_args \<and>
   filter (\<lambda>e. is_save (snd e)) (trace (snd (main demo_args demo_env None))) =
     [(Some 2, TorchSave ModelState ''ckpt/ddpm-run-iteration-2-model.pth''),
      (Some 2, TorchSave OptimState ''ckpt/ddpm-run-iteration-2-optim.pth'')] \<and>
   iterations demo_args div checkpoint_rate demo_args = 1"
  using checkpoint_cadence [where a = demo_args and env = demo_env]
  by (simp add: run_defs)



text \<open>
  C7. On a loader that holds at least one full batch (the precondition of C10), the
  evaluation of lines 94 to 125 returns. It leaves the parameters and the optimizer as they
  were (only the mode flag is set to evaluation). Its calls are \<^verbatim>\<open>eval()\<close>, one forward pass
  without gradient tracking on every batch of the loader, the sampling, and the reports. The
  loss it reports is the sum of the per-batch losses (a function of the parameters and the
  batch) divided by the number of batches. The batches are the consecutive full batches of
  the held-out set: each has \<open>batch_size\<close> samples and the trailing partial batch is dropped.
\<close>

theorem evaluation_is_mean_over_batches:
  assumes ld: "test_loader l = \<lparr>dataset = ds, loader_batch_size = bs\<rparr>"
    and bs: "0 < bs" and full: "bs \<le> int (length ds)" and L: "log_rate a \<noteq> 0"
  shows "\<exists>l' w'. evaluate a env None i l w = (Inr l', w') \<and>
           params (diffusion l') = params (diffusion l) \<and>
           optimizer l' = optimizer l \<and>
           test_loader l' = test_loader l \<and>
           \<not> training (diffusion l') \<and>
           (let batches = full_batches (nat bs) ds;
                mean = fdiv env
                         (foldl (fadd env) (fzero env)
                            (map (\<lambda>b. forward env (params (diffusion l)) False b (use_labels a))
                               batches))
                         (int (length batches))
            in trace w' = trace w @
                 (Some i, SetEval) # map (\<lambda>b. (Some i, Forward False b)) batches @
                 (Some i, Sample (use_labels a)) #
                 (if log_to_wandb a
                  then [(Some i, WandbLog mean (fdiv env (acc_train_loss l) (log_rate a)))]
                  else []) @
                 [(Some i, Print (TestLoss mean))] \<and>
               length batches = length ds div nat bs \<and>
               (\<forall>b \<in> set batches. length b = nat bs) \<and>
               concat batches = take (nat bs * (length ds div nat bs)) ds)"
proof -
  have lb: "loader_batches (test_loader l) = full_batches (nat bs) ds"
    by (simp add: loader_batches_def ld)
  have ll: "loader_len (test_loader l) = int (length (full_batches (nat bs) ds))"
    unfolding lb[symmetric] by (rule loader_len_batches) (simp add: ld bs)
  have nz: "loader_len (test_loader l) \<noteq> 0"
    using loader_len_zero[of "test_loader l"] bs full by (simp add: ld)
  have ev: "evaluate a env None i l w =
         (result_of (evaluate a env None i l), advance w (events_of (evaluate a env None i l)))"
    by (rule framedD[OF framed_evaluate])
  have nb: "0 < nat bs" using bs by simp
  show ?thesis
    unfolding ev evaluate_result evaluate_events
    using nz L length_full_batches[OF nb, of ds] concat_full_batches[OF nb, of ds]
      full_batches_sizes[of _ "nat bs" ds]
    by (simp add: Let_def lb mean_test_loss_def ll)
qed

theorem evaluation_is_mean_over_batches_witness:
  "test_loader (initial_locals demo_args demo_env) = \<lparr>dataset = [0, 1, 2, 3, 4], loader_batch_size = 2\<rparr> \<and>
   (0 :: int) < 2 \<and> 2 \<le> int (length [0 :: nat, 1, 2, 3, 4]) \<and> log_rate demo_args \<noteq> 0 \<and>
   [0 :: nat, 1] \<in> set (full_batches (nat 2) [0 :: nat, 1, 2, 3, 4]) \<and>
   length [0 :: nat, 1] = nat 2 \<and>
   full_batches (nat 2) [0 :: nat, 1, 2, 3, 4] = [[0, 1], [2, 3]] \<and>
   calls (snd (evaluate demo_args demo_env None 2 (initial_locals demo_args demo_env) blank)) =
     [SetEval, Forward False [0, 1], Forward False [2, 3], Sample True, Print (TestLoss 1)]"
  using evaluation_is_mean_over_batches
          [where l = "initial_locals demo_args demo_env" and ds = "[0, 1, 2, 3, 4]" and bs = 2
             and a = demo_args and env = demo_env and i = 2 and w = blank]
  by (simp add: run_defs initial_locals_def blank_def test_pass.simps)

text \<open>
  C10. Line 115 divides by \<^verbatim>\<open>len(test_loader)\<close> without a guard. When the held-out set has fewer
  samples than \<open>batch_size\<close>, the loader yields no batch and the evaluation raises
  \<^verbatim>\<open>ZeroDivisionError\<close>, after \<^verbatim>\<open>eval()\<close> and the sampling and before any report; it never
  returns, with or without a fault. The evaluation returns exactly when the held-out set has
  at least \<open>batch_size\<close> samples. In a run without fault whose construction phase succeeds,
  with \<open>1 \<le> log_rate \<le> iterations\<close> and a nonzero checkpoint cadence, the run ends with
  \<^verbatim>\<open>ZeroDivisionError\<close> and its only evaluation call is the \<^verbatim>\<open>eval()\<close> of iteration \<open>log_rate\<close>, the
  first evaluation.
\<close>

theorem evaluation_needs_a_full_batch:
  assumes ld: "test_loader l = \<lparr>dataset = ds, loader_batch_size = bs\<rparr>"
    and bs: "0 < bs" and L: "log_rate a \<noteq> 0"
  shows "(int (length ds) < bs \<longrightarrow>
            loader_batches (test_loader l) = [] \<and>
            evaluate a env None i l w =
              (Inl ZeroDivisionError,
               advance w [(Some i, SetEval), (Some i, Sample (use_labels a))]) \<and>
            (\<forall>f l' w'. evaluate a env f i l w \<noteq> (Inr l', w'))) \<and>
         ((\<exists>l' w'. evaluate a env None i l w = (Inr l', w')) = (bs \<le> int (length ds))) \<and>
         (\<not> init_fails a \<and> 1 \<le> log_rate a \<and> log_rate a \<le> iterations a \<and>
          checkpoint_rate a \<noteq> 0 \<and> int (length (test_dataset env)) < batch_size a \<longrightarrow>
            fst (main a env None) = Inl ZeroDivisionError \<and>
            filter (\<lambda>e. is_test_pass (snd e)) (trace (snd (main a env None))) =
              [(Some (log_rate a), SetEval)])"
proof (intro conjI impI)
  have z: "(loader_len (test_loader l) = 0) = (int (length ds) < bs)"
    using loader_len_zero[of "test_loader l"] bs by (simp add: ld)
  have ev: "evaluate a env None i l w =
         (result_of (evaluate a env None i l), advance w (events_of (evaluate a env None i l)))"
    by (rule framedD[OF framed_evaluate])
  {
    assume short: "int (length ds) < bs"
    then have nb: "length ds < nat bs" by simp
    show e: "loader_batches (test_loader l) = []"
      using nb by (simp add: loader_batches_def ld full_batches.simps[of "nat bs" ds])
    show "evaluate a env None i l w =
              (Inl ZeroDivisionError,
               advance w [(Some i, SetEval), (Some i, Sample (use_labels a))])"
      unfolding ev using z short e by (simp add: evaluate_result evaluate_events)
    show "\<forall>f l' w'. evaluate a env f i l w \<noteq> (Inr l', w')"
      using evaluate_Inr(3)[of a env _ i l w] z short by blast
  }
  show "(\<exists>l' w'. evaluate a env None i l w = (Inr l', w')) = (bs \<le> int (length ds))"
    unfolding ev using z L by (auto simp: evaluate_result)
next
  assume h: "\<not> init_fails a \<and> 1 \<le> log_rate a \<and> log_rate a \<le> iterations a \<and>
          checkpoint_rate a \<noteq> 0 \<and> int (length (test_dataset env)) < batch_size a"
  then have nf: "\<not> init_fails a" and L1: "1 \<le> log_rate a" and LN: "log_rate a \<le> iterations a"
    and C: "checkpoint_rate a \<noteq> 0" and short: "int (length (test_dataset env)) < batch_size a"
    by simp_all
  let ?l = "initial_locals a env"
  have b0: "0 < batch_size a" using nf by (simp add: init_fails_def)
  have len0: "loader_len (test_loader ?l) = 0"
    using loader_len_zero[of "test_loader ?l"] b0 short by (simp add: initial_locals_def)
  have nb: "length (test_dataset env) < nat (batch_size a)" using short by simp
  have bat: "loader_batches (test_loader ?l) = []"
    using nb by (simp add: loader_batches_def initial_locals_def
        full_batches.simps[of "nat (batch_size a)" "test_dataset env"])
  have N0: "0 \<le> iterations a" using L1 LN by simp
  have "\<not> iteration_ok a (log_rate a) ?l"
    using len0 by (simp add: iteration_ok_def)
  then have "\<not> (\<forall>j. 1 \<le> j \<and> j < 1 + int (nat (iterations a)) \<longrightarrow> iteration_ok a j ?l)"
    using L1 LN by (intro notI) (drule spec[of _ "log_rate a"], simp)
  then have lr: "loop_result a env = Inl ZeroDivisionError"
    using for_range_result[of 1 "nat (iterations a)" a ?l env] by (simp add: loop_result_def)
  then have tr: "try_result a env = Inl ZeroDivisionError"
    using nf by (simp add: try_result_def)
  have np: "\<not> (log_to_wandb a \<and> project_name a = None)"
    using nf by (simp add: init_fails_def)
  show "fst (main a env None) = Inl ZeroDivisionError"
    using tr np by (simp add: main_None_result)
  have L0: "log_rate a \<noteq> 0" using L1 by simp
  have "filter (\<lambda>e. is_test_pass (snd e)) (loop_events a env) = [(Some (log_rate a), SetEval)]"
    unfolding loop_events_def for_range_first_failure[OF bat len0 L0 C]
    using N0 first_multiple[OF L1 LN] by simp
  then show "filter (\<lambda>e. is_test_pass (snd e)) (trace (snd (main a env None))) =
              [(Some (log_rate a), SetEval)]"
    using nf
    by (simp add: main_None_trace try_events_split init_events_quiet tail_events_quiet
        final_events_quiet)
qed

theorem evaluation_needs_a_full_batch_witness:
  "test_loader (initial_locals (demo_args\<lparr>batch_size := 8\<rparr>) demo_env) =
     \<lparr>dataset = [0, 1, 2, 3, 4], loader_batch_size = 8\<rparr> \<and>
   (0 :: int) < 8 \<and> log_rate (demo_args\<lparr>batch_size := 8\<rparr>) \<noteq> 0 \<and>
   int (length [0 :: nat, 1, 2, 3, 4]) < 8 \<and>
   \<not> init_fails (demo_args\<lparr>batch_size := 8\<rparr>) \<and>
   1 \<le> log_rate (demo_args\<lparr>batch_size := 8\<rparr>) \<and>
   log_rate (demo_args\<lparr>batch_size := 8\<rparr>) \<le> iterations (demo_args\<lparr>batch_size := 8\<rparr>) \<and>
   checkpoint_rate (demo_args\<lparr>batch_size := 8\<rparr>) \<noteq> 0 \<and>
   int (length (test_dataset demo_env)) < batch_size (demo_args\<lparr>batch_size := 8\<rparr>) \<and>
   fst (main (demo_args\<lparr>batch_size := 8\<rparr>) demo_env None) = Inl ZeroDivisionError \<and>
   fst (evaluate (demo_args\<lparr>batch_size := 8\<rparr>) demo_env None 2
          (initial_locals (demo_args\<lparr>batch_size := 8\<rparr>) demo_env) blank) = Inl ZeroDivisionError"
  using evaluation_needs_a_full_batch
          [where l = "initial_locals (demo_args\<lparr>batch_size := 8\<rparr>) demo_env"
             and ds = "[0, 1, 2, 3, 4]" and bs = 8
             and a = "demo_args\<lparr>batch_size := 8\<rparr>" and env = demo_env and i = 2 and w = blank]
  by (simp add: initial_locals_def init_fails_def demo_args_def demo_env_def)

text \<open>
  C8 (as amended). \<^verbatim>\<open>torch.save\<close> is not atomic and lines 131 and 132 write the two snapshots
  one after the other, so the claim holds except for a fault delivered inside a checkpoint.
  For every run, with or without a fault, and the checkpoint files it leaves (starting from
  none):
  \<^item> if the fault strikes the write of the model snapshot of iteration \<open>j\<close>, that file is left
    partially written, it is the only partially written file, and the optimizer file of \<open>j\<close>
    does not exist; the number of snapshots completely written is even;
  \<^item> if it strikes the creation of the optimizer file of iteration \<open>j\<close>, the model snapshot
    of \<open>j\<close> is complete and its optimizer file does not exist; no file is partially written;
    the number of snapshots completely written is odd;
  \<^item> if it strikes the write of the optimizer snapshot of iteration \<open>j\<close>, the model snapshot
    of \<open>j\<close> is complete and the optimizer file of \<open>j\<close> is partially written, the only such
    file; the number of snapshots completely written is odd;
  \<^item> in these three cases \<open>j\<close> is divisible by \<open>checkpoint_rate\<close> and the two snapshots of
    every other iteration are both absent or both complete;
  \<^item> in every other run (no fault, or a fault that strikes another call) no file is partially
    written, the two snapshots of every iteration are both absent or both complete, and
    the number of snapshots written is even.
\<close>

theorem artifacts_paired_unless_cut:
  fixes env :: "('p, 'o, 's, 'v) env"
  shows
  "(strikes a env f j (TorchSave ModelState (model_filename a j)) \<longrightarrow>
      j mod checkpoint_rate a = 0 \<and>
      disk (snd (main a env f)) (model_filename a j) = Some Partial \<and>
      disk (snd (main a env f)) (optim_filename a j) = None \<and>
      (\<forall>n. disk (snd (main a env f)) n = Some Partial \<longrightarrow> n = model_filename a j) \<and>
      (\<forall>i. i \<noteq> j \<longrightarrow> paired a (disk (snd (main a env f))) i) \<and>
      even (length (filter is_save (calls (snd (main a env f)))))) \<and>
   (strikes a env f j (CreateFile (optim_filename a j)) \<longrightarrow>
      j mod checkpoint_rate a = 0 \<and>
      disk (snd (main a env f)) (model_filename a j) = Some Complete \<and>
      disk (snd (main a env f)) (optim_filename a j) = None \<and>
      (\<forall>n. disk (snd (main a env f)) n \<noteq> Some Partial) \<and>
      (\<forall>i. i \<noteq> j \<longrightarrow> paired a (disk (snd (main a env f))) i) \<and>
      odd (length (filter is_save (calls (snd (main a env f)))))) \<and>
   (strikes a env f j (TorchSave OptimState (optim_filename a j)) \<longrightarrow>
      j mod checkpoint_rate a = 0 \<and>
      disk (snd (main a env f)) (model_filename a j) = Some Complete \<and>
      disk (snd (main a env f)) (optim_filename a j) = Some Partial \<and>
      (\<forall>n. disk (snd (main a env f)) n = Some Partial \<longrightarrow> n = optim_filename a j) \<and>
      (\<forall>i. i \<noteq> j \<longrightarrow> paired a (disk (snd (main a env f))) i) \<and>
      odd (length (filter is_save (calls (snd (main a env f)))))) \<and>
   ((\<forall>i. \<not> strikes a env f i (TorchSave ModelState (model_filename a i)) \<and>
         \<not> strikes a env f i (CreateFile (optim_filename a i)) \<and>
         \<not> strikes a env f i (TorchSave OptimState (optim_filename a i))) \<longrightarrow>
      (\<forall>n. disk (snd (main a env f)) n \<noteq> Some Partial) \<and>
      (\<forall>i. paired a (disk (snd (main a env f))) i) \<and>
      even (length (filter is_save (calls (snd (main a env f))))))"
proof -
  from disk_main[of a env f] obtain js where
    d: "disk (snd (main a env f)) =
          foldl write_file (add_pairs a js Map.empty) (map snd (leftover a env f))"
    and n: "length (filter is_save (calls (snd (main a env f)))) =
          2 * length js + length (filter (\<lambda>e. is_save (snd e)) (leftover a env f))"
    and fresh: "\<forall>j \<in> set js. \<forall>ev. \<not> strikes a env f j ev" by blast
  have p: "paired a (add_pairs a js Map.empty) i" for i by (rule paired_add_pairs)
  have 1: "j mod checkpoint_rate a = 0 \<and>
      disk (snd (main a env f)) (model_filename a j) = Some Partial \<and>
      disk (snd (main a env f)) (optim_filename a j) = None \<and>
      (\<forall>n. disk (snd (main a env f)) n = Some Partial \<longrightarrow> n = model_filename a j) \<and>
      (\<forall>i. i \<noteq> j \<longrightarrow> paired a (disk (snd (main a env f))) i) \<and>
      even (length (filter is_save (calls (snd (main a env f)))))"
    if s: "strikes a env f j (TorchSave ModelState (model_filename a j))"
  proof -
    from s fresh have j: "j \<notin> set js" by blast
    have l: "leftover a env f = take 1 (quad a j)"
      using leftover_struck[OF s] by (simp only: begun_struck)
    have d': "disk (snd (main a env f)) = (add_pairs a js Map.empty)(model_filename a j \<mapsto> Partial)"
      unfolding d l by (rule leftover_disk)
    have "j mod checkpoint_rate a = 0" using s by (rule struck_file) simp
    moreover have "disk (snd (main a env f)) (model_filename a j) = Some Partial" by (simp add: d')
    moreover have "disk (snd (main a env f)) (optim_filename a j) = None" using j by (simp add: d')
    moreover have "\<forall>n. disk (snd (main a env f)) n = Some Partial \<longrightarrow> n = model_filename a j"
      using add_pairs_not_partial[of a js] by (simp add: d')
    moreover have "\<forall>i. i \<noteq> j \<longrightarrow> paired a (disk (snd (main a env f))) i"
      using p by (simp add: d' paired_def)
    moreover have "even (length (filter is_save (calls (snd (main a env f)))))"
      unfolding n l leftover_saves by simp
    ultimately show ?thesis by blast
  qed
  have 2: "j mod checkpoint_rate a = 0 \<and>
      disk (snd (main a env f)) (model_filename a j) = Some Complete \<and>
      disk (snd (main a env f)) (optim_filename a j) = None \<and>
      (\<forall>n. disk (snd (main a env f)) n \<noteq> Some Partial) \<and>
      (\<forall>i. i \<noteq> j \<longrightarrow> paired a (disk (snd (main a env f))) i) \<and>
      odd (length (filter is_save (calls (snd (main a env f)))))"
    if s: "strikes a env f j (CreateFile (optim_filename a j))"
  proof -
    from s fresh have j: "j \<notin> set js" by blast
    have l: "leftover a env f = take 2 (quad a j)"
      using leftover_struck[OF s] by (simp only: begun_struck)
    have d': "disk (snd (main a env f)) = (add_pairs a js Map.empty)(model_filename a j \<mapsto> Complete)"
      unfolding d l by (rule leftover_disk)
    have "j mod checkpoint_rate a = 0" using s by (rule struck_file) simp
    moreover have "disk (snd (main a env f)) (model_filename a j) = Some Complete" by (simp add: d')
    moreover have "disk (snd (main a env f)) (optim_filename a j) = None" using j by (simp add: d')
    moreover have "\<forall>n. disk (snd (main a env f)) n \<noteq> Some Partial"
      using add_pairs_not_partial[of a js] by (simp add: d')
    moreover have "\<forall>i. i \<noteq> j \<longrightarrow> paired a (disk (snd (main a env f))) i"
      using p by (simp add: d' paired_def)
    moreover have "odd (length (filter is_save (calls (snd (main a env f)))))"
      unfolding n l leftover_saves by simp
    ultimately show ?thesis by blast
  qed
  have 3: "j mod checkpoint_rate a = 0 \<and>
      disk (snd (main a env f)) (model_filename a j) = Some Complete \<and>
      disk (snd (main a env f)) (optim_filename a j) = Some Partial \<and>
      (\<forall>n. disk (snd (main a env f)) n = Some Partial \<longrightarrow> n = optim_filename a j) \<and>
      (\<forall>i. i \<noteq> j \<longrightarrow> paired a (disk (snd (main a env f))) i) \<and>
      odd (length (filter is_save (calls (snd (main a env f)))))"
    if s: "strikes a env f j (TorchSave OptimState (optim_filename a j))"
  proof -
    from s fresh have j: "j \<notin> set js" by blast
    have l: "leftover a env f = take 3 (quad a j)"
      using leftover_struck[OF s] by (simp only: begun_struck)
    have d': "disk (snd (main a env f)) =
        (add_pairs a js Map.empty)(model_filename a j \<mapsto> Complete, optim_filename a j \<mapsto> Partial)"
      unfolding d l by (rule leftover_disk)
    have "j mod checkpoint_rate a = 0" using s by (rule struck_file) simp
    moreover have "disk (snd (main a env f)) (model_filename a j) = Some Complete" by (simp add: d')
    moreover have "disk (snd (main a env f)) (optim_filename a j) = Some Partial" by (simp add: d')
    moreover have "\<forall>n. disk (snd (main a env f)) n = Some Partial \<longrightarrow> n = optim_filename a j"
      using add_pairs_not_partial[of a js] by (simp add: d')
    moreover have "\<forall>i. i \<noteq> j \<longrightarrow> paired a (disk (snd (main a env f))) i"
      using p by (simp add: d' paired_def)
    moreover have "odd (length (filter is_save (calls (snd (main a env f)))))"
      unfolding n l leftover_saves by simp
    ultimately show ?thesis by blast
  qed
  have 4: "(\<forall>n. disk (snd (main a env f)) n \<noteq> Some Partial) \<and>
      (\<forall>i. paired a (disk (snd (main a env f))) i) \<and>
      even (length (filter is_save (calls (snd (main a env f)))))"
    if s: "\<forall>i. \<not> strikes a env f i (TorchSave ModelState (model_filename a i)) \<and>
         \<not> strikes a env f i (CreateFile (optim_filename a i)) \<and>
         \<not> strikes a env f i (TorchSave OptimState (optim_filename a i))"
  proof -
    have l: "leftover a env f = []" using s by (intro leftover_none) simp_all
    have d': "disk (snd (main a env f)) = add_pairs a js Map.empty"
      unfolding d l by simp
    show ?thesis
      using add_pairs_not_partial[of a js] p by (simp add: d' n l)
  qed
  from 1 2 3 4 show ?thesis by blast
qed

theorem artifacts_paired_unless_cut_witness:
  "strikes (demo_args\<lparr>checkpoint_rate := 1\<rparr>) demo_env (Some (15, KeyboardInterrupt)) 1
     (TorchSave ModelState (model_filename (demo_args\<lparr>checkpoint_rate := 1\<rparr>) 1)) \<and>
   disk (snd (main (demo_args\<lparr>checkpoint_rate := 1\<rparr>) demo_env (Some (15, KeyboardInterrupt))))
     ''ckpt/ddpm-run-iteration-1-model.pth'' = Some Partial \<and>
   disk (snd (main (demo_args\<lparr>checkpoint_rate := 1\<rparr>) demo_env (Some (15, KeyboardInterrupt))))
     ''ckpt/ddpm-run-iteration-1-optim.pth'' = None \<and>
   length (filter is_save (calls (snd
     (main (demo_args\<lparr>checkpoint_rate := 1\<rparr>) demo_env (Some (15, KeyboardInterrupt)))))) = 0 \<and>
   strikes (demo_args\<lparr>checkpoint_rate := 1\<rparr>) demo_env (Some (16, KeyboardInterrupt)) 1
     (CreateFile (optim_filename (demo_args\<lparr>checkpoint_rate := 1\<rparr>) 1)) \<and>
   disk (snd (main (demo_args\<lparr>checkpoint_rate := 1\<rparr>) demo_env (Some (16, KeyboardInterrupt))))
     ''ckpt/ddpm-run-iteration-1-model.pth'' = Some Complete \<and>
   disk (snd (main (demo_args\<lparr>checkpoint_rate := 1\<rparr>) demo_env (Some (16, KeyboardInterrupt))))
     ''ckpt/ddpm-run-iteration-1-optim.pth'' = None \<and>
   length (filter is_save (calls (snd
     (main (demo_args\<lparr>checkpoint_rate := 1\<rparr>) demo_env (Some (16, KeyboardInterrupt)))))) = 1 \<and>
   strikes (demo_args\<lparr>checkpoint_rate := 1\<rparr>) demo_env (Some (34, KeyboardInterrupt)) 2
     (TorchSave OptimState (optim_filename (demo_args\<lparr>checkpoint_rate := 1\<rparr>) 2)) \<and>
   disk (snd (main (demo_args\<lparr>checkpoint_rate := 1\<rparr>) demo_env (Some (34, KeyboardInterrupt))))
     ''ckpt/ddpm-run-iteration-2-model.pth'' = Some Complete \<and>
   disk (snd (main (demo_args\<lparr>checkpoint_rate := 1\<rparr>) demo_env (Some (34, KeyboardInterrupt))))
     ''ckpt/ddpm-run-iteration-2-optim.pth'' = Some Partial \<and>
   paired (demo_args\<lparr>checkpoint_rate := 1\<rparr>)
     (disk (snd (main (demo_args\<lparr>checkpoint_rate := 1\<rparr>) demo_env (Some (34, KeyboardInterrupt))))) 1 \<and>
   length (filter is_save (calls (snd
     (main (demo_args\<lparr>checkpoint_rate := 1\<rparr>) demo_env (Some (34, KeyboardInterrupt)))))) = 3 \<and>
   (\<forall>i. \<not> strikes (demo_args\<lparr>checkpoint_rate := 1\<rparr>) demo_env (Some (7, KeyboardInterrupt)) i
            (TorchSave ModelState (model_filename (demo_args\<lparr>checkpoint_rate := 1\<rparr>) i)) \<and>
        \<not> strikes (demo_args\<lparr>checkpoint_rate := 1\<rparr>) demo_env (Some (7, KeyboardInterrupt)) i
            (CreateFile (optim_filename (demo_args\<lparr>checkpoint_rate := 1\<rparr>) i)) \<and>
        \<not> strikes (demo_args\<lparr>checkpoint_rate := 1\<rparr>) demo_env (Some (7, KeyboardInterrupt)) i
            (TorchSave OptimState (optim_filename (demo_args\<lparr>checkpoint_rate := 1\<rparr>) i))) \<and>
   paired (demo_args\<lparr>checkpoint_rate := 1\<rparr>)
     (disk (snd (main (demo_args\<lparr>checkpoint_rate := 1\<rparr>) demo_env (Some (7, KeyboardInterrupt))))) 1 \<and>
   length (filter is_save (calls (snd
     (main (demo_args\<lparr>checkpoint_rate := 1\<rparr>) demo_env (Some (7, KeyboardInterrupt)))))) = 0 \<and>
   paired (demo_args\<lparr>checkpoint_rate := 1\<rparr>)
     (disk (snd (main (demo_args\<lparr>checkpoint_rate := 1\<rparr>) demo_env None))) 2 \<and>
   length (filter is_save (calls (snd
     (main (demo_args\<lparr>checkpoint_rate := 1\<rparr>) demo_env None)))) = 4"
proof -
  let ?a = "demo_args\<lparr>checkpoint_rate := 1\<rparr>"
  note t = artifacts_paired_unless_cut[where a = ?a and env = demo_env]
  have s15: "strikes ?a demo_env (Some (15, KeyboardInterrupt)) 1
     (TorchSave ModelState (model_filename ?a 1))"
    by (simp add: strikes_def run_defs)
  have s16: "strikes ?a demo_env (Some (16, KeyboardInterrupt)) 1
     (CreateFile (optim_filename ?a 1))"
    by (simp add: strikes_def run_defs)
  have s34: "strikes ?a demo_env (Some (34, KeyboardInterrupt)) 2
     (TorchSave OptimState (optim_filename ?a 2))"
    by (simp add: strikes_def run_defs)
  have s7: "\<forall>i. \<not> strikes ?a demo_env (Some (7, KeyboardInterrupt)) i
            (TorchSave ModelState (model_filename ?a i)) \<and>
        \<not> strikes ?a demo_env (Some (7, KeyboardInterrupt)) i
            (CreateFile (optim_filename ?a i)) \<and>
        \<not> strikes ?a demo_env (Some (7, KeyboardInterrupt)) i
            (TorchSave OptimState (optim_filename ?a i))"
    by (simp add: strikes_def run_defs)
  have s0: "\<forall>i. \<not> strikes ?a demo_env None i (TorchSave ModelState (model_filename ?a i)) \<and>
        \<not> strikes ?a demo_env None i (CreateFile (optim_filename ?a i)) \<and>
        \<not> strikes ?a demo_env None i (TorchSave OptimState (optim_filename ?a i))"
    by (simp add: strikes_def)
  have m1: "model_filename ?a 1 = ''ckpt/ddpm-run-iteration-1-model.pth''"
    and o1: "optim_filename ?a 1 = ''ckpt/ddpm-run-iteration-1-optim.pth''"
    and m2: "model_filename ?a 2 = ''ckpt/ddpm-run-iteration-2-model.pth''"
    and o2: "optim_filename ?a 2 = ''ckpt/ddpm-run-iteration-2-optim.pth''"
    by (simp_all add: run_defs)
  have n15: "length (filter is_save (calls (snd (main ?a demo_env (Some (15, KeyboardInterrupt)))))) = 0"
    and n16: "length (filter is_save (calls (snd (main ?a demo_env (Some (16, KeyboardInterrupt)))))) = 1"
    and n34: "length (filter is_save (calls (snd (main ?a demo_env (Some (34, KeyboardInterrupt)))))) = 3"
    and n7: "length (filter is_save (calls (snd (main ?a demo_env (Some (7, KeyboardInterrupt)))))) = 0"
    and n0: "length (filter is_save (calls (snd (main ?a demo_env None)))) = 4"
    by (simp_all add: run_defs)
  from t[where f = "Some (15, KeyboardInterrupt)" and j = 1] s15
  have c15: "disk (snd (main ?a demo_env (Some (15, KeyboardInterrupt)))) (model_filename ?a 1) = Some Partial"
    "disk (snd (main ?a demo_env (Some (15, KeyboardInterrupt)))) (optim_filename ?a 1) = None"
    by blast+
  from t[where f = "Some (16, KeyboardInterrupt)" and j = 1] s16
  have c16: "disk (snd (main ?a demo_env (Some (16, KeyboardInterrupt)))) (model_filename ?a 1) = Some Complete"
    "disk (snd (main ?a demo_env (Some (16, KeyboardInterrupt)))) (optim_filename ?a 1) = None"
    by blast+
  from t[where f = "Some (34, KeyboardInterrupt)" and j = 2] s34
  have c34: "disk (snd (main ?a demo_env (Some (34, KeyboardInterrupt)))) (model_filename ?a 2) = Some Complete"
    "disk (snd (main ?a demo_env (Some (34, KeyboardInterrupt)))) (optim_filename ?a 2) = Some Partial"
    "\<forall>i. i \<noteq> 2 \<longrightarrow> paired ?a (disk (snd (main ?a demo_env (Some (34, KeyboardInterrupt))))) i"
    by blast+
  from c34(3) have p34: "paired ?a (disk (snd (main ?a demo_env (Some (34, KeyboardInterrupt))))) 1"
    by simp
  from t[where f = "Some (7, KeyboardInterrupt)" and j = 1] s7
  have p7: "paired ?a (disk (snd (main ?a demo_env (Some (7, KeyboardInterrupt))))) 1" by blast
  from t[where f = None and j = 1] s0
  have p0: "paired ?a (disk (snd (main ?a demo_env None))) 2" by blast
  show ?thesis
    using s15 s16 s34 s7 c15[unfolded m1 o1] c16[unfolded m1 o1] c34(1,2)[unfolded m2 o2]
      p34 p7 p0 n15 n16 n34 n7 n0
    by (intro conjI)
qed

text \<open>The claim as stated fails: an interrupt during the second \<^verbatim>\<open>torch.save\<close> of iteration 1
  leaves one complete snapshot and a partially written one.\<close>

theorem artifacts_paired_counterexample:
  "length (filter is_save (calls (snd
       (main (demo_args\<lparr>checkpoint_rate := 1\<rparr>) demo_env (Some (17, KeyboardInterrupt)))))) = 1 \<and>
   disk (snd (main (demo_args\<lparr>checkpoint_rate := 1\<rparr>) demo_env (Some (17, KeyboardInterrupt))))
     ''ckpt/ddpm-run-iteration-1-model.pth'' = Some Complete \<and>
   disk (snd (main (demo_args\<lparr>checkpoint_rate := 1\<rparr>) demo_env (Some (17, KeyboardInterrupt))))
     ''ckpt/ddpm-run-iteration-1-optim.pth'' = Some Partial"
  by (simp add: run_defs disk_def)

end
